theory Spec2Isabelle
  imports Complex_Main
begin

section \<open>Values exchanged with the wrapped library\<close>

text \<open>
  The program is \<^verbatim>\<open>youtube_downloader_optimized.py\<close>. The progress callback receives a
  Python dict from the download library. Its values are \<^verbatim>\<open>None\<close>, numbers or strings;
  \<open>PInt\<close> is Python's unbounded \<^verbatim>\<open>int\<close>, \<open>PFloat\<close> a \<^verbatim>\<open>float\<close>, idealised as a real
  number (no rounding). A dict is a map from keys to values.
\<close>

datatype pyval = PNone | PInt int | PFloat real | PStr string

type_synonym event = "string \<rightharpoonup> pyval"

text \<open>Python exceptions, with \<^verbatim>\<open>str(e)\<close> as the code stores it.\<close>

datatype exn = Exception string | KeyError string | TypeError string | AttributeError string
  | TclError string

fun str_exn :: "exn \<Rightarrow> string" where
  "str_exn (Exception m) = m"
| "str_exn (KeyError k) = [CHR 0x27] @ k @ [CHR 0x27]"
| "str_exn (TypeError m) = m"
| "str_exn (AttributeError m) = m"
| "str_exn (TclError m) = m"

text \<open>\<^verbatim>\<open>d.get(k, default)\<close>\<close>

definition dict_get :: "(string \<rightharpoonup> 'v) \<Rightarrow> string \<Rightarrow> 'v \<Rightarrow> 'v" where
  "dict_get d k dflt = (case d k of None \<Rightarrow> dflt | Some v \<Rightarrow> v)"

text \<open>Truth value of a Python value, and \<^verbatim>\<open>a or b\<close>.\<close>

fun truthy :: "pyval \<Rightarrow> bool" where
  "truthy PNone = False"
| "truthy (PInt n) = (n \<noteq> 0)"
| "truthy (PFloat r) = (r \<noteq> 0)"
| "truthy (PStr s) = (s \<noteq> [])"

definition py_or :: "pyval \<Rightarrow> pyval \<Rightarrow> pyval" where
  "py_or a b = (if truthy a then a else b)"

fun type_name :: "pyval \<Rightarrow> string" where
  "type_name PNone = ''NoneType''"
| "type_name (PInt n) = ''int''"
| "type_name (PFloat r) = ''float''"
| "type_name (PStr s) = ''str''"

text \<open>\<^verbatim>\<open>x > 0\<close>: only a number can be compared with \<^verbatim>\<open>0\<close>.\<close>

fun py_gt0 :: "pyval \<Rightarrow> exn + bool" where
  "py_gt0 (PInt n) = Inr (0 < n)"
| "py_gt0 (PFloat r) = Inr (0 < r)"
| "py_gt0 x = Inl (TypeError ([CHR 0x27] @ ''>'' @ [CHR 0x27] @ '' not supported between instances of ''
       @ [CHR 0x27] @ type_name x @ [CHR 0x27] @ '' and '' @ [CHR 0x27] @ ''int'' @ [CHR 0x27]))"

text \<open>The number a value stands for, if it is one.\<close>

fun num_of :: "pyval \<Rightarrow> real option" where
  "num_of (PInt n) = Some (of_int n)"
| "num_of (PFloat r) = Some r"
| "num_of x = None"

text \<open>
  \<^verbatim>\<open>(a / b) * 100\<close> where \<open>b\<close> is a number other than zero (the code divides only after
  \<^verbatim>\<open>b > 0\<close>): true division, then the product.
\<close>

definition py_percent :: "pyval \<Rightarrow> pyval \<Rightarrow> exn + real" where
  "py_percent a b =
     (case (num_of a, num_of b) of
        (Some x, Some y) \<Rightarrow> Inr ((x / y) * 100)
      | _ \<Rightarrow> Inl (TypeError (''unsupported operand type(s) for /: '' @ [CHR 0x27] @ type_name a
                 @ [CHR 0x27] @ '' and '' @ [CHR 0x27] @ type_name b @ [CHR 0x27])))"

section \<open>VideoItem\<close>

text \<open>Metadata values of the extraction library: a string or \<^verbatim>\<open>None\<close>.\<close>

datatype meta = MNone | MStr string

datatype status = Pending | Downloading | Paused | Completed | Failed | Cancelled

text \<open>
  The class \<^verbatim>\<open>VideoItem\<close>. The field \<^verbatim>\<open>id\<close> is \<open>video_id\<close> here, the name of the
  constructor's argument. \<^verbatim>\<open>download_thread\<close> is never assigned after construction
  and is left out.
\<close>

record video_item =
  video_id :: meta
  title :: meta
  url :: meta
  duration :: meta
  thumbnail :: meta
  progress :: real
  status :: status
  speed :: pyval
  eta :: pyval
  filesize :: pyval
  downloaded_bytes :: pyval
  error_message :: string
  output_filename :: pyval
  is_paused :: bool
  is_cancelled :: bool

definition VideoItem :: "meta \<Rightarrow> meta \<Rightarrow> meta \<Rightarrow> meta \<Rightarrow> meta \<Rightarrow> video_item" where
  "VideoItem vid ttl u dur thumb =
     \<lparr>video_id = vid, title = ttl, url = u, duration = dur, thumbnail = thumb,
      progress = 0, status = Pending, speed = PStr [], eta = PStr [],
      filesize = PInt 0, downloaded_bytes = PInt 0, error_message = [],
      output_filename = PStr [], is_paused = False, is_cancelled = False\<rparr>"

type_synonym videos = "video_item list"

section \<open>Control surface\<close>

text \<open>
  The items are objects shared between \<^verbatim>\<open>self.videos\<close> and the download thread; the
  model keeps them in one list and names an item by its position.
\<close>

definition pause_video :: "video_item \<Rightarrow> video_item" where
  "pause_video v = (if status v = Downloading then v\<lparr>is_paused := True, status := Paused\<rparr> else v)"

definition resume_video :: "video_item \<Rightarrow> video_item" where
  "resume_video v = (if status v = Paused then v\<lparr>is_paused := False, status := Downloading\<rparr> else v)"

definition pause_all_downloads :: "videos \<Rightarrow> videos" where
  "pause_all_downloads vs = map (\<lambda>v. if status v = Downloading then pause_video v else v) vs"

definition resume_all_downloads :: "videos \<Rightarrow> videos" where
  "resume_all_downloads vs = map (\<lambda>v. if status v = Paused then resume_video v else v) vs"

text \<open>The body of the loop of \<^verbatim>\<open>cancel_all_downloads\<close>, for one item.\<close>

definition cancel_video :: "video_item \<Rightarrow> video_item" where
  "cancel_video v =
     (if status v = Downloading \<or> status v = Paused
      then v\<lparr>is_cancelled := True, status := Cancelled\<rparr> else v)"

definition cancel_all_downloads :: "videos \<Rightarrow> videos" where
  "cancel_all_downloads vs = map cancel_video vs"

text \<open>
  \<^verbatim>\<open>on_video_double_click\<close>: the row's identifier selects the first item with that id;
  an empty identifier selects nothing.
\<close>

fun toggle_first :: "string \<Rightarrow> videos \<Rightarrow> videos" where
  "toggle_first item [] = []"
| "toggle_first item (v # vs) =
     (if video_id v = MStr item
      then (if status v = Downloading then pause_video v
            else if status v = Paused then resume_video v else v) # vs
      else v # toggle_first item vs)"

definition on_video_double_click :: "string \<Rightarrow> videos \<Rightarrow> videos" where
  "on_video_double_click item vs = (if item = [] then vs else toggle_first item vs)"

text \<open>What the interface thread can do to the items while a download runs.\<close>

datatype ui_action = DoubleClick string | PauseAll | ResumeAll | CancelAll

fun apply_ui :: "ui_action \<Rightarrow> videos \<Rightarrow> videos" where
  "apply_ui (DoubleClick item) vs = on_video_double_click item vs"
| "apply_ui PauseAll vs = pause_all_downloads vs"
| "apply_ui ResumeAll vs = resume_all_downloads vs"
| "apply_ui CancelAll vs = cancel_all_downloads vs"

section \<open>The progress callback\<close>

text \<open>
  One download is driven by a script: what the library and the interface thread do, in
  the order in which the download thread observes it. \<open>Hook d\<close> is the library calling
  the progress callback with the dict \<open>d\<close>, \<open>Raise e\<close> the library failing with the
  error \<open>e\<close>, \<open>UI a\<close> an action of the interface thread. The end of the script is the
  library returning.
\<close>

datatype step = UI ui_action | Hook event | Raise exn

text \<open>
  The loop \<^verbatim>\<open>while video_item.is_paused: time.sleep(0.1)\<close>. Each poll reads the flag;
  between two polls the interface thread performs the next \<open>UI\<close> step of the script.
  When the flag is set and no \<open>UI\<close> step follows, nothing will ever clear it: the loop
  does not end (\<open>Stuck\<close>).
\<close>

datatype wait_result = Resumed videos "step list" | Stuck videos

fun wait_while_paused :: "nat \<Rightarrow> videos \<Rightarrow> step list \<Rightarrow> wait_result" where
  "wait_while_paused i vs [] = (if is_paused (vs ! i) then Stuck vs else Resumed vs [])"
| "wait_while_paused i vs (s # tr) =
     (if is_paused (vs ! i)
      then (case s of UI a \<Rightarrow> wait_while_paused i (apply_ui a vs) tr | _ \<Rightarrow> Stuck vs)
      else Resumed vs (s # tr))"

text \<open>
  Lines 429 to 445 of the callback: the update for one event. An exception leaves the
  assignments made before it in place, so the item is returned with it. The refresh of
  the row (\<^verbatim>\<open>self.root.after\<close>) writes no field of the item and is left out.
\<close>

definition update_progress :: "event \<Rightarrow> video_item \<Rightarrow> video_item \<times> exn option" where
  "update_progress d v =
     (case d ''status'' of
        None \<Rightarrow> (v, Some (KeyError ''status''))
      | Some ph \<Rightarrow>
          if ph = PStr ''downloading'' then
            (let v1 = v\<lparr>downloaded_bytes := dict_get d ''downloaded_bytes'' (PInt 0),
                        filesize := py_or (dict_get d ''total_bytes'' (PInt 0))
                                          (dict_get d ''total_bytes_estimate'' (PInt 0)),
                        speed := dict_get d ''_speed_str'' (PStr []),
                        eta := dict_get d ''_eta_str'' (PStr [])\<rparr>
             in case py_gt0 (filesize v1) of
                  Inl e \<Rightarrow> (v1, Some e)
                | Inr False \<Rightarrow> (v1, None)
                | Inr True \<Rightarrow>
                    (case py_percent (downloaded_bytes v1) (filesize v1) of
                       Inl e \<Rightarrow> (v1, Some e)
                     | Inr p \<Rightarrow> (v1\<lparr>progress := p\<rparr>, None)))
          else if ph = PStr ''finished'' then
            (v\<lparr>status := Completed, progress := 100,
               output_filename := dict_get d ''filename'' (PStr [])\<rparr>, None)
          else (v, None))"

datatype hook_result =
  HookReturned videos "step list" | HookRaised exn videos | HookBlocked videos

definition video_progress_hook :: "event \<Rightarrow> nat \<Rightarrow> videos \<Rightarrow> step list \<Rightarrow> hook_result" where
  "video_progress_hook d i vs tr =
     (if is_cancelled (vs ! i) then HookRaised (Exception ''Download cancelled'') vs
      else case wait_while_paused i vs tr of
             Stuck vs1 \<Rightarrow> HookBlocked vs1
           | Resumed vs1 tr1 \<Rightarrow>
               (case update_progress d (vs1 ! i) of
                  (v, None) \<Rightarrow> HookReturned (vs1[i := v]) tr1
                | (v, Some e) \<Rightarrow> HookRaised e (vs1[i := v])))"

section \<open>Downloading\<close>

text \<open>
  The download library, \<^verbatim>\<open>ydl.download([video_item.url])\<close>, running the script of the
  item at position \<open>i\<close>: it calls the callback, fails, or returns at the end of the
  script; an exception of the callback leaves through the library. \<open>Blocked\<close> is a call
  that never returns, the callback being stuck in its wait.
\<close>

datatype run_result = Returned videos | Raised exn videos | Blocked videos

function ydl_download :: "nat \<Rightarrow> videos \<Rightarrow> step list \<Rightarrow> run_result" where
  "ydl_download i vs [] = Returned vs"
| "ydl_download i vs (UI a # tr) = ydl_download i (apply_ui a vs) tr"
| "ydl_download i vs (Raise e # tr) = Raised e vs"
| "ydl_download i vs (Hook d # tr) =
     (case video_progress_hook d i vs tr of
        HookReturned vs1 tr1 \<Rightarrow> ydl_download i vs1 tr1
      | HookRaised e vs1 \<Rightarrow> Raised e vs1
      | HookBlocked vs1 \<Rightarrow> Blocked vs1)"
  by pat_completeness auto
termination
proof (relation "measure (\<lambda>(i, vs, tr). length tr)")
  show "wf (measure (\<lambda>(i, vs, tr). length tr))" by simp
next
  fix i :: nat and vs :: videos and a tr
  show "((i, apply_ui a vs, tr), (i, vs, UI a # tr)) \<in> measure (\<lambda>(i, vs, tr). length tr)"
    by simp
next
  fix i :: nat and vs :: videos and d tr vs1 tr1
  assume h: "video_progress_hook d i vs tr = HookReturned vs1 tr1"
  have w: "wait_while_paused i ws sc = Resumed ws' sc' \<Longrightarrow> length sc' \<le> length sc"
    for ws sc ws' sc'
  proof (induction sc arbitrary: ws)
    case Nil
    then show ?case by (simp split: if_splits)
  next
    case (Cons s sc)
    show ?case
    proof (cases "is_paused (ws ! i)")
      case False
      with Cons.prems show ?thesis by simp
    next
      case True
      with Cons.prems obtain a where "s = UI a"
        and "wait_while_paused i (apply_ui a ws) sc = Resumed ws' sc'"
        by (cases s) simp_all
      with Cons.IH [of "apply_ui a ws"] show ?thesis by simp
    qed
  qed
  from h obtain ws where "wait_while_paused i vs tr = Resumed ws tr1"
    by (auto simp: video_progress_hook_def split: if_splits wait_result.splits prod.splits option.splits)
  from w [OF this] show "((i, vs1, tr1), (i, vs, Hook d # tr)) \<in> measure (\<lambda>(i, vs, tr). length tr)"
    by simp
qed

text \<open>How one call of the library ended, as the orchestrator sees it.\<close>

datatype outcome = Succeeded | Errored exn | NoReturn

datatype attempt_result = Finished outcome videos | Hung videos

text \<open>
  \<^verbatim>\<open>download_single_video\<close>. The options passed to the library (format, output
  template, merge format) do not reach the item's state and are left out.
\<close>

definition download_single_video :: "nat \<Rightarrow> videos \<Rightarrow> step list \<Rightarrow> attempt_result" where
  "download_single_video i vs sc =
     (let vs0 = vs[i := (vs ! i)\<lparr>status := Downloading, is_cancelled := False, is_paused := False\<rparr>]
      in case ydl_download i vs0 sc of
           Returned vs1 \<Rightarrow> Finished Succeeded vs1
         | Raised e vs1 \<Rightarrow>
             Finished (Errored e) (vs1[i := (vs1 ! i)\<lparr>status := Failed, error_message := str_exn e\<rparr>])
         | Blocked vs1 \<Rightarrow> Hung vs1)"

text \<open>
  The state of \<^verbatim>\<open>_download_all_videos_thread\<close> (named here without the leading
  underscore; the texts of the label are left out): the items, the value of the overall
  progress bar, the counter \<^verbatim>\<open>completed\<close>, and a log of the visits (not in the
  source): for every item the loop reaches, its position, its status when reached, and
  how the call of the library for it ended (\<open>None\<close> when the loop skipped the item
  and made no call).
\<close>

type_synonym visit = "nat \<times> status \<times> outcome option"

record loop_state =
  videos :: videos
  overall_progress :: real
  completed :: nat
  visits :: "visit list"

datatype loop_result = Done loop_state | Halted loop_state

fun state_of :: "loop_result \<Rightarrow> loop_state" where
  "state_of (Done st) = st"
| "state_of (Halted st) = st"

text \<open>
  The body of \<^verbatim>\<open>for video in self.videos\<close> for the item at position \<open>i\<close>; \<open>env i\<close> is
  the script of its download. \<open>Done\<close>: the body ended and the loop goes on. \<open>Halted\<close>:
  the download never returned, so the loop stays at this item.
\<close>

definition loop_body :: "(nat \<Rightarrow> step list) \<Rightarrow> nat \<Rightarrow> nat \<Rightarrow> loop_state \<Rightarrow> loop_result" where
  "loop_body env total_videos i st =
     (let s = status (videos st ! i) in
      if s = Completed \<or> s = Failed
      then Done (st\<lparr>visits := visits st @ [(i, s, None)]\<rparr>)
      else
        (case download_single_video i (videos st) (env i) of
           Hung vs1 \<Rightarrow> Halted (st\<lparr>videos := vs1, visits := visits st @ [(i, s, Some NoReturn)]\<rparr>)
         | Finished r vs1 \<Rightarrow>
             (let st1 = st\<lparr>videos := vs1, visits := visits st @ [(i, s, Some r)]\<rparr> in
              if status (vs1 ! i) = Completed
              then Done (st1\<lparr>completed := completed st + 1,
                             overall_progress := (real (completed st + 1) / real total_videos) * 100\<rparr>)
              else Done st1)))"

text \<open>The loop over the positions still to visit.\<close>

fun download_loop :: "(nat \<Rightarrow> step list) \<Rightarrow> nat \<Rightarrow> nat list \<Rightarrow> loop_state \<Rightarrow> loop_result" where
  "download_loop env total_videos [] st = Done st"
| "download_loop env total_videos (i # rest) st =
     (case loop_body env total_videos i st of
        Done st1 \<Rightarrow> download_loop env total_videos rest st1
      | Halted st1 \<Rightarrow> Halted st1)"

definition download_all_videos_thread :: "(nat \<Rightarrow> step list) \<Rightarrow> videos \<Rightarrow> real \<Rightarrow> loop_result" where
  "download_all_videos_thread env vs bar =
     download_loop env (length vs) [0..<length vs]
       \<lparr>videos = vs, overall_progress = bar, completed = 0, visits = []\<rparr>"

text \<open>
  \<^verbatim>\<open>download_all_videos\<close>: with no items it shows a warning and starts nothing
  (\<open>None\<close>); otherwise it starts the thread. \<open>bar\<close> is the value the progress bar has
  when the thread starts.
\<close>

definition download_all_videos :: "(nat \<Rightarrow> step list) \<Rightarrow> videos \<Rightarrow> real \<Rightarrow> loop_result option" where
  "download_all_videos env vs bar =
     (if vs = [] then None else Some (download_all_videos_thread env vs bar))"

section \<open>Playlist analysis\<close>

text \<open>
  The result of \<^verbatim>\<open>extract_info\<close>: a dict of metadata, with the list \<^verbatim>\<open>entries\<close> when
  it is a playlist (\<open>None\<close>: the key is missing). An entry is \<^verbatim>\<open>None\<close> or a dict.
\<close>

type_synonym entry = "string \<rightharpoonup> meta"

record info =
  attrs :: "string \<rightharpoonup> meta"
  entries :: "entry option list option"

text \<open>\<^verbatim>\<open>str(idx)\<close> for a position, and the value of a metadata field inside an f-string.\<close>

fun str_nat :: "nat \<Rightarrow> string" where
  "str_nat n = (if n < 10 then [char_of (48 + n)] else str_nat (n div 10) @ [char_of (48 + n mod 10)])"

fun format_meta :: "meta \<Rightarrow> string" where
  "format_meta MNone = ''None''"
| "format_meta (MStr s) = s"

text \<open>\<^verbatim>\<open>if video and video.get('id')\<close>: the entry is a non-empty dict with a non-empty id.\<close>

fun meta_truthy :: "meta \<Rightarrow> bool" where
  "meta_truthy MNone = False"
| "meta_truthy (MStr s) = (s \<noteq> [])"

definition has_id :: "entry option \<Rightarrow> bool" where
  "has_id video = (case video of None \<Rightarrow> False | Some e \<Rightarrow> meta_truthy (dict_get e ''id'' MNone))"

definition item_of_entry :: "nat \<Rightarrow> entry \<Rightarrow> video_item" where
  "item_of_entry idx e =
     VideoItem (dict_get e ''id'' (MStr (str_nat idx)))
               (dict_get e ''title'' (MStr (''Video '' @ str_nat idx)))
               (MStr (''https://www.youtube.com/watch?v='' @ format_meta (dict_get e ''id'' (MStr []))))
               (dict_get e ''duration_string'' (MStr ''Unknown''))
               (dict_get e ''thumbnail'' MNone)"

text \<open>The loop \<^verbatim>\<open>for idx, video in enumerate(videos, 1)\<close>, from position \<open>idx\<close> on.\<close>

fun video_list :: "nat \<Rightarrow> entry option list \<Rightarrow> videos" where
  "video_list idx [] = []"
| "video_list idx (video # rest) =
     (if has_id video then item_of_entry idx (the video) # video_list (Suc idx) rest
      else video_list (Suc idx) rest)"

text \<open>
  The rows of the tree widget, by their identifiers. \<^verbatim>\<open>videos_tree.insert\<close> with
  \<^verbatim>\<open>iid=video_item.id\<close> adds a row under the item's id; the widget refuses an
  identifier it already has (the empty one is its root) with a \<^verbatim>\<open>TclError\<close>, and gives
  a row an identifier of its own when the id is \<^verbatim>\<open>None\<close> (a row written \<open>MNone\<close>).
\<close>

definition tree_insert :: "meta \<Rightarrow> meta list \<Rightarrow> exn + meta list" where
  "tree_insert iid rows =
     (case iid of
        MNone \<Rightarrow> Inr (rows @ [MNone])
      | MStr s \<Rightarrow>
          if s = [] \<or> MStr s \<in> set rows
          then Inl (TclError (''Item '' @ s @ '' already exists''))
          else Inr (rows @ [MStr s]))"

text \<open>
  The loop \<^verbatim>\<open>for idx, video_item in enumerate(video_list, 1)\<close> that fills the tree: it
  ends at the first row the widget refuses, with the rows inserted so far.
\<close>

fun insert_rows :: "videos \<Rightarrow> meta list \<Rightarrow> meta list \<times> exn option" where
  "insert_rows [] rows = (rows, None)"
| "insert_rows (v # vs) rows =
     (case tree_insert (video_id v) rows of
        Inl e \<Rightarrow> (rows, Some e)
      | Inr rows1 \<Rightarrow> insert_rows vs rows1)"

text \<open>
  \<^verbatim>\<open>_process_analysis_results\<close> (named here without the leading underscore): the new
  value of \<^verbatim>\<open>self.videos\<close>, the rows of the tree, both emptied first, and the exception
  if one leaves the method (the argument \<open>None\<close> is the library returning \<^verbatim>\<open>None\<close>).
  \<^verbatim>\<open>self.videos\<close> is extended before the tree is filled, so it holds all items also
  when the tree refuses one. The log line, the button and the progress bar of the
  analysis are left out.
\<close>

definition process_analysis_results :: "info option \<Rightarrow> videos \<times> meta list \<times> exn option" where
  "process_analysis_results res =
     (case res of
        None \<Rightarrow> ([], [], Some (AttributeError
                   ([CHR 0x27] @ ''NoneType'' @ [CHR 0x27] @ '' object has no attribute ''
                    @ [CHR 0x27] @ ''get'' @ [CHR 0x27])))
      | Some r \<Rightarrow>
          if attrs r ''_type'' = Some (MStr ''playlist'') then
            (case entries r of
               None \<Rightarrow> ([], [], Some (KeyError ''entries''))
             | Some es \<Rightarrow>
                 (let vl = video_list 1 es in
                  case insert_rows vl [] of (rows, ex) \<Rightarrow> (vl, rows, ex)))
          else
            (let v = VideoItem (dict_get (attrs r) ''id'' (MStr ''1''))
                               (dict_get (attrs r) ''title'' (MStr ''Single Video''))
                               (dict_get (attrs r) ''webpage_url'' (MStr []))
                               (dict_get (attrs r) ''duration_string'' (MStr ''Unknown''))
                               (dict_get (attrs r) ''thumbnail'' MNone)
             in case tree_insert (video_id v) [] of
                  Inl e \<Rightarrow> ([v], [], Some e)
                | Inr rows \<Rightarrow> ([v], rows, None)))"

section \<open>Configuration\<close>

text \<open>
  The configuration file holds a JSON document. Writing with \<^verbatim>\<open>json.dump\<close> and reading
  with \<^verbatim>\<open>json.load\<close> are the library's; the model keeps the document itself in the
  file, so that reading gives back what was written. A file can also hold text that
  does not parse, or be one that cannot be opened for reading.
\<close>

datatype json = JNull | JBool bool | JNum real | JStr string | JArr "json list"
  | JObj "(string \<times> json) list"

datatype file_content = Doc json | Unparsable | Unreadable

record filesystem =
  files :: "string \<rightharpoonup> file_content"
  writable :: "string \<Rightarrow> bool"

text \<open>The two fields of the application that the configuration uses.\<close>

record config =
  config_file :: string
  download_path :: json

text \<open>
  The constructor, up to \<^verbatim>\<open>load_config\<close>; \<open>home_downloads\<close> is
  \<^verbatim>\<open>str(Path.home() / "Downloads")\<close>, which the platform decides.
\<close>

definition init_config :: "string \<Rightarrow> config" where
  "init_config home_downloads =
     \<lparr>config_file = ''downloader_config.json'', download_path = JStr home_downloads\<rparr>"

text \<open>
  \<^verbatim>\<open>load_config\<close>: every exception is caught and leaves the path as it was. Only a
  JSON object has \<^verbatim>\<open>get\<close>.
\<close>

definition load_config :: "filesystem \<Rightarrow> config \<Rightarrow> config" where
  "load_config fs c =
     (case files fs (config_file c) of
        None \<Rightarrow> c
      | Some Unreadable \<Rightarrow> c
      | Some Unparsable \<Rightarrow> c
      | Some (Doc (JObj kvs)) \<Rightarrow>
          c\<lparr>download_path := (case map_of kvs ''download_path'' of
                                 None \<Rightarrow> download_path c | Some v \<Rightarrow> v)\<rparr>
      | Some (Doc _) \<Rightarrow> c)"

text \<open>
  \<^verbatim>\<open>save_config\<close>: the file is replaced by the document; when it cannot be opened
  for writing the exception is caught and nothing is written.
\<close>

definition save_config :: "config \<Rightarrow> filesystem \<Rightarrow> filesystem" where
  "save_config c fs =
     (if writable fs (config_file c)
      then fs\<lparr>files := (files fs)(config_file c \<mapsto> Doc (JObj [(''download_path'', download_path c)]))\<rparr>
      else fs)"

section \<open>Notions used in the statements\<close>

text \<open>The items a call leaves behind, however it ended.\<close>

fun wait_state :: "wait_result \<Rightarrow> videos" where
  "wait_state (Resumed vs tr) = vs"
| "wait_state (Stuck vs) = vs"

fun hook_state :: "hook_result \<Rightarrow> videos" where
  "hook_state (HookReturned vs tr) = vs"
| "hook_state (HookRaised e vs) = vs"
| "hook_state (HookBlocked vs) = vs"

fun run_state :: "run_result \<Rightarrow> videos" where
  "run_state (Returned vs) = vs"
| "run_state (Raised e vs) = vs"
| "run_state (Blocked vs) = vs"

fun attempt_state :: "attempt_result \<Rightarrow> videos" where
  "attempt_state (Finished r vs) = vs"
| "attempt_state (Hung vs) = vs"

text \<open>The total size an event reports: the value the callback stores in \<^verbatim>\<open>filesize\<close>.\<close>

definition reported_total :: "event \<Rightarrow> pyval" where
  "reported_total d =
     py_or (dict_get d ''total_bytes'' (PInt 0)) (dict_get d ''total_bytes_estimate'' (PInt 0))"

text \<open>The loop of the orchestrator passes over an item that is completed or failed.\<close>

definition settled :: "video_item \<Rightarrow> bool" where
  "settled v = (status v = Completed \<or> status v = Failed)"

text \<open>A property of an item that no action of the control surface takes away.\<close>

definition stable :: "(video_item \<Rightarrow> bool) \<Rightarrow> bool" where
  "stable P = (\<forall>v. P v \<longrightarrow> P (pause_video v) \<and> P (resume_video v) \<and> P (cancel_video v))"

text \<open>The script of a download holds a call of the callback in the phase \<^verbatim>\<open>finished\<close>.\<close>

fun finished_call :: "step \<Rightarrow> bool" where
  "finished_call (Hook d) = (d ''status'' = Some (PStr ''finished''))"
| "finished_call s = False"

definition delivers_finished :: "step list \<Rightarrow> bool" where
  "delivers_finished sc = list_ex finished_call sc"

text \<open>
  What the specification says of the orchestrator, to compare the loop with: the items
  are taken in the order given, one after the other; an item that is completed or
  failed is passed over; for any other item its download is run, and the next item is
  taken when that download has ended. The result: the items at the end, whether every
  download returned, and the calls of the download made, each with its outcome.
\<close>

fun downloads_in_order ::
  "(nat \<Rightarrow> step list) \<Rightarrow> nat list \<Rightarrow> videos \<Rightarrow> videos \<times> bool \<times> (nat \<times> outcome) list" where
  "downloads_in_order env [] vs = (vs, True, [])"
| "downloads_in_order env (i # rest) vs =
     (if settled (vs ! i) then downloads_in_order env rest vs
      else case download_single_video i vs (env i) of
             Hung vs1 \<Rightarrow> (vs1, False, [(i, NoReturn)])
           | Finished r vs1 \<Rightarrow>
               (case downloads_in_order env rest vs1 of (ws, b, cs) \<Rightarrow> (ws, b, (i, r) # cs)))"

text \<open>The calls of the download that a log of visits records, with their outcomes.\<close>

fun calls_of :: "visit list \<Rightarrow> (nat \<times> outcome) list" where
  "calls_of [] = []"
| "calls_of ((i, s, None) # xs) = calls_of xs"
| "calls_of ((i, s, Some r) # xs) = (i, r) # calls_of xs"

text \<open>The id of an entry of a playlist (\<^verbatim>\<open>None\<close> for an entry that is \<^verbatim>\<open>None\<close>).\<close>

definition entry_id :: "entry option \<Rightarrow> meta" where
  "entry_id video = (case video of None \<Rightarrow> MNone | Some e \<Rightarrow> dict_get e ''id'' MNone)"

text \<open>Concrete inputs.\<close>

definition example_item :: video_item where
  "example_item =
     VideoItem (MStr ''a1'') (MStr ''First'') (MStr ''https://www.youtube.com/watch?v=a1'')
       (MStr ''3:05'') MNone"

definition example_paused :: videos where
  "example_paused = pause_all_downloads [example_item\<lparr>status := Downloading\<rparr>]"

definition example_videos :: videos where
  "example_videos =
     [example_item, example_item\<lparr>status := Completed\<rparr>, example_item\<lparr>status := Cancelled\<rparr>]"

definition example_progress :: event where
  "example_progress =
     [''status'' \<mapsto> PStr ''downloading'', ''downloaded_bytes'' \<mapsto> PInt 512,
      ''total_bytes'' \<mapsto> PInt 1024]"

definition example_unknown_total :: event where
  "example_unknown_total =
     [''status'' \<mapsto> PStr ''downloading'', ''downloaded_bytes'' \<mapsto> PInt 512,
      ''total_bytes'' \<mapsto> PNone]"

definition example_finished :: event where
  "example_finished = [''status'' \<mapsto> PStr ''finished'', ''filename'' \<mapsto> PStr ''First.mp4'']"

definition example_half_done :: videos where
  "example_half_done = [example_item\<lparr>status := Completed\<rparr>, example_item]"

definition example_env :: "nat \<Rightarrow> step list" where
  "example_env i = [Hook example_progress, Hook example_finished]"

definition example_failing_env :: "nat \<Rightarrow> step list" where
  "example_failing_env i =
     (if i = 1 then [Hook example_progress, Raise (Exception ''HTTP Error 403'')]
      else [Hook example_finished])"

definition example_playlist :: info where
  "example_playlist =
     \<lparr>attrs = [''_type'' \<mapsto> MStr ''playlist''],
      entries = Some [None, Some [''id'' \<mapsto> MStr ''a1''], Some [''id'' \<mapsto> MStr ''b2'']]\<rparr>"

definition example_repeated_playlist :: info where
  "example_repeated_playlist =
     \<lparr>attrs = [''_type'' \<mapsto> MStr ''playlist''],
      entries = Some [Some [''id'' \<mapsto> MStr ''a1''], Some [''id'' \<mapsto> MStr ''a1'']]\<rparr>"

definition example_filesystem :: filesystem where
  "example_filesystem = \<lparr>files = Map.empty, writable = (\<lambda>name. True)\<rparr>"

section \<open>The control surface and the items it leaves alone\<close>

lemma length_toggle_first [simp]: "length (toggle_first item vs) = length vs"
  by (induction vs) simp_all

lemma length_apply_ui [simp]: "length (apply_ui a vs) = length vs"
  by (cases a) (simp_all add: on_video_double_click_def pause_all_downloads_def
      resume_all_downloads_def cancel_all_downloads_def)

lemma toggle_first_nth:
  "j < length vs \<Longrightarrow>
   toggle_first item vs ! j = vs ! j \<or> toggle_first item vs ! j = pause_video (vs ! j)
   \<or> toggle_first item vs ! j = resume_video (vs ! j)"
proof (induction vs arbitrary: j)
  case Nil
  then show ?case by simp
next
  case (Cons v vs)
  show ?case
  proof (cases j)
    case 0
    then show ?thesis by simp
  next
    case (Suc m)
    with Cons.prems have "m < length vs" by simp
    from Cons.IH [OF this] Suc show ?thesis by simp
  qed
qed

lemma apply_ui_nth:
  assumes "j < length vs"
  shows "apply_ui a vs ! j = vs ! j \<or> apply_ui a vs ! j = pause_video (vs ! j)
     \<or> apply_ui a vs ! j = resume_video (vs ! j) \<or> apply_ui a vs ! j = cancel_video (vs ! j)"
proof (cases a)
  case (DoubleClick item)
  with toggle_first_nth [OF assms, of item] show ?thesis
    by (auto simp: on_video_double_click_def)
next
  case PauseAll
  with assms show ?thesis by (simp add: pause_all_downloads_def)
next
  case ResumeAll
  with assms show ?thesis by (simp add: resume_all_downloads_def)
next
  case CancelAll
  with assms show ?thesis by (simp add: cancel_all_downloads_def)
qed

lemma stable_apply_ui:
  assumes "stable P" and "j < length vs" and "P (vs ! j)"
  shows "P (apply_ui a vs ! j)"
  using apply_ui_nth [OF assms(2), of a] assms(1,3) unfolding stable_def by metis

lemma length_wait [simp]: "length (wait_state (wait_while_paused i vs tr)) = length vs"
proof (induction tr arbitrary: vs)
  case Nil
  show ?case by simp
next
  case (Cons s tr)
  then show ?case by (cases s) simp_all
qed

lemma stable_wait:
  assumes "stable P"
  shows "j < length vs \<Longrightarrow> P (vs ! j) \<Longrightarrow> P (wait_state (wait_while_paused i vs tr) ! j)"
proof (induction tr arbitrary: vs)
  case Nil
  then show ?case by simp
next
  case (Cons s tr)
  show ?case
  proof (cases s)
    case (UI a)
    have "P (apply_ui a vs ! j)"
      by (fact stable_apply_ui [OF assms Cons.prems])
    with Cons.IH [of "apply_ui a vs"] Cons.prems UI show ?thesis by simp
  next
    case (Hook d)
    with Cons.prems show ?thesis by simp
  next
    case (Raise e)
    with Cons.prems show ?thesis by simp
  qed
qed

lemma length_hook [simp]: "length (hook_state (video_progress_hook d i vs tr)) = length vs"
proof -
  have "length (wait_state (wait_while_paused i vs tr)) = length vs" by simp
  then show ?thesis
    by (cases "wait_while_paused i vs tr")
      (auto simp: video_progress_hook_def split: prod.splits option.splits)
qed

lemma stable_hook:
  assumes "stable P" and "j < length vs" and "j \<noteq> i" and "P (vs ! j)"
  shows "P (hook_state (video_progress_hook d i vs tr) ! j)"
proof -
  have "P (wait_state (wait_while_paused i vs tr) ! j)"
    by (fact stable_wait [OF assms(1,2,4)])
  with assms(3) show ?thesis
    using assms(4)
    by (cases "wait_while_paused i vs tr")
      (auto simp: video_progress_hook_def split: prod.splits option.splits)
qed

lemma length_ydl [simp]: "length (run_state (ydl_download i vs sc)) = length vs"
proof (induction i vs sc rule: ydl_download.induct)
  case (4 i vs d tr)
  have l: "length (hook_state (video_progress_hook d i vs tr)) = length vs" by simp
  show ?case
  proof (cases "video_progress_hook d i vs tr")
    case (HookReturned vs1 tr1)
    with 4 l show ?thesis by simp
  next
    case (HookRaised e vs1)
    with l show ?thesis by simp
  next
    case (HookBlocked vs1)
    with l show ?thesis by simp
  qed
qed simp_all

lemma stable_ydl:
  assumes "stable P"
  shows "j \<noteq> i \<Longrightarrow> j < length vs \<Longrightarrow> P (vs ! j) \<Longrightarrow> P (run_state (ydl_download i vs sc) ! j)"
proof (induction i vs sc rule: ydl_download.induct)
  case (1 i vs)
  then show ?case by simp
next
  case (2 i vs a tr)
  have "P (apply_ui a vs ! j)" by (fact stable_apply_ui [OF assms "2.prems"(2,3)])
  with 2 show ?case by simp
next
  case (3 i vs e tr)
  then show ?case by simp
next
  case (4 i vs d tr)
  have l: "length (hook_state (video_progress_hook d i vs tr)) = length vs" by simp
  have p: "P (hook_state (video_progress_hook d i vs tr) ! j)"
    by (fact stable_hook [OF assms "4.prems"(2,1,3)])
  show ?case
  proof (cases "video_progress_hook d i vs tr")
    case (HookReturned vs1 tr1)
    with 4 l p show ?thesis by simp
  next
    case (HookRaised e vs1)
    with p show ?thesis by simp
  next
    case (HookBlocked vs1)
    with p show ?thesis by simp
  qed
qed

lemma length_attempt [simp]: "length (attempt_state (download_single_video i vs sc)) = length vs"
proof -
  let ?vs0 = "vs[i := (vs ! i)\<lparr>status := Downloading, is_cancelled := False, is_paused := False\<rparr>]"
  have "length (run_state (ydl_download i ?vs0 sc)) = length vs" by simp
  then show ?thesis
    by (cases "ydl_download i ?vs0 sc") (simp_all add: download_single_video_def)
qed

lemma stable_attempt:
  assumes "stable P" and "j \<noteq> i" and "j < length vs" and "P (vs ! j)"
  shows "P (attempt_state (download_single_video i vs sc) ! j)"
proof -
  let ?vs0 = "vs[i := (vs ! i)\<lparr>status := Downloading, is_cancelled := False, is_paused := False\<rparr>]"
  have "P (run_state (ydl_download i ?vs0 sc) ! j)"
    using assms(2,3,4) by (intro stable_ydl [OF assms(1)]) simp_all
  with assms(2) show ?thesis
    by (cases "ydl_download i ?vs0 sc") (simp_all add: download_single_video_def)
qed

section \<open>Progress of one item\<close>

lemma wait_not_paused: "\<not> is_paused (vs ! i) \<Longrightarrow> wait_while_paused i vs tr = Resumed vs tr"
  by (cases tr) simp_all

lemma py_gt0_num: "num_of x = Some t \<Longrightarrow> py_gt0 x = Inr (0 < t)"
  by (cases x) auto

lemma py_gt0_None: "num_of x = None \<Longrightarrow> \<exists>e. py_gt0 x = Inl e"
  by (cases x) auto

text \<open>
  Claim C7. For every item and every event of the phase \<^verbatim>\<open>downloading\<close>, the update of
  the callback (lines 429 to 436) does this: if the total the event reports is a
  positive number \<open>t\<close> and the downloaded bytes are a number \<open>b\<close>, it ends without an
  exception and the progress is \<open>b / t * 100\<close>; if the total is no positive number
  (zero, missing, \<^verbatim>\<open>None\<close>), the progress keeps the value it had. A call of the callback
  for an item that is neither cancelled nor paused leaves the item as this update
  leaves it. Python's floats are taken as real numbers.
\<close>

theorem progress_recomputed:
  assumes "d ''status'' = Some (PStr ''downloading'')"
  shows "(\<forall>t b. num_of (reported_total d) = Some t \<and> 0 < t \<and>
            num_of (dict_get d ''downloaded_bytes'' (PInt 0)) = Some b \<longrightarrow>
            snd (update_progress d v) = None \<and>
            progress (fst (update_progress d v)) = (b / t) * 100) \<and>
         ((\<forall>t. num_of (reported_total d) = Some t \<longrightarrow> \<not> 0 < t) \<longrightarrow>
            progress (fst (update_progress d v)) = progress v) \<and>
         (i < length vs \<and> \<not> is_cancelled (vs ! i) \<and> \<not> is_paused (vs ! i) \<longrightarrow>
            hook_state (video_progress_hook d i vs tr) = vs[i := fst (update_progress d (vs ! i))])"
proof (intro conjI allI impI)
  fix t b
  assume h: "num_of (reported_total d) = Some t \<and> 0 < t \<and>
            num_of (dict_get d ''downloaded_bytes'' (PInt 0)) = Some b"
  then have g: "py_gt0 (reported_total d) = Inr True"
    by (simp add: py_gt0_num)
  with h assms show "snd (update_progress d v) = None"
    by (simp add: update_progress_def reported_total_def py_percent_def Let_def)
  from g h assms show "progress (fst (update_progress d v)) = (b / t) * 100"
    by (simp add: update_progress_def reported_total_def py_percent_def Let_def)
next
  assume h: "\<forall>t. num_of (reported_total d) = Some t \<longrightarrow> \<not> 0 < t"
  show "progress (fst (update_progress d v)) = progress v"
  proof (cases "num_of (reported_total d)")
    case None
    then obtain e where "py_gt0 (reported_total d) = Inl e"
      using py_gt0_None by blast
    with assms show ?thesis
      by (simp add: update_progress_def reported_total_def Let_def)
  next
    case (Some t)
    with h have "py_gt0 (reported_total d) = Inr False"
      by (simp add: py_gt0_num)
    with assms show ?thesis
      by (simp add: update_progress_def reported_total_def Let_def)
  qed
next
  assume "i < length vs \<and> \<not> is_cancelled (vs ! i) \<and> \<not> is_paused (vs ! i)"
  then show "hook_state (video_progress_hook d i vs tr) = vs[i := fst (update_progress d (vs ! i))]"
    by (simp add: video_progress_hook_def wait_not_paused split: prod.splits option.splits)
qed

theorem progress_recomputed_witness:
  "progress (hook_state (video_progress_hook example_progress 0 [example_item] []) ! 0) = 50 \<and>
   progress (hook_state (video_progress_hook example_unknown_total 0 [example_item] []) ! 0) = 0"
proof -
  have f: "0 < length [example_item] \<and> \<not> is_cancelled ([example_item] ! 0)
      \<and> \<not> is_paused ([example_item] ! 0)"
    by (simp add: example_item_def VideoItem_def)
  have d1: "example_progress ''status'' = Some (PStr ''downloading'')"
    by (simp add: example_progress_def)
  have d2: "example_unknown_total ''status'' = Some (PStr ''downloading'')"
    by (simp add: example_unknown_total_def)
  have t1: "num_of (reported_total example_progress) = Some 1024 \<and> 0 < (1024::real) \<and>
      num_of (dict_get example_progress ''downloaded_bytes'' (PInt 0)) = Some 512"
    by (simp add: reported_total_def example_progress_def dict_get_def py_or_def)
  have t2: "\<forall>t. num_of (reported_total example_unknown_total) = Some t \<longrightarrow> \<not> 0 < t"
    by (simp add: reported_total_def example_unknown_total_def dict_get_def py_or_def)
  note a = progress_recomputed [where d = example_progress and v = "[example_item] ! 0" and i = 0
      and vs = "[example_item]" and tr = "[]", OF d1]
  note b = progress_recomputed [where d = example_unknown_total and v = "[example_item] ! 0"
      and i = 0 and vs = "[example_item]" and tr = "[]", OF d2]
  from a t1 have a1: "progress (fst (update_progress example_progress ([example_item] ! 0))) = (512 / 1024) * 100"
    by blast
  from a f have a2: "hook_state (video_progress_hook example_progress 0 [example_item] [])
      = [example_item][0 := fst (update_progress example_progress ([example_item] ! 0))]"
    by blast
  from b t2 have b1: "progress (fst (update_progress example_unknown_total ([example_item] ! 0)))
      = progress ([example_item] ! 0)"
    by blast
  from b f have b2: "hook_state (video_progress_hook example_unknown_total 0 [example_item] [])
      = [example_item][0 := fst (update_progress example_unknown_total ([example_item] ! 0))]"
    by blast
  have z: "progress example_item = 0" by (simp add: example_item_def VideoItem_def)
  from a1 a2 b1 b2 z show ?thesis by simp
qed

section \<open>The start of a download\<close>

text \<open>
  Claim C10. \<^verbatim>\<open>download_single_video\<close> begins by setting the status of its item to
  \<^verbatim>\<open>downloading\<close> and both flags to \<^verbatim>\<open>False\<close>, whatever they were: the download of an
  item runs the same from any earlier status and any earlier flags, so a pause or a
  cancellation requested before it began has no effect on it; and when the library
  returns at once, the item is left with exactly these three values.
\<close>

theorem start_resets_flags:
  assumes "i < length vs"
  shows "download_single_video i (vs[i := (vs ! i)\<lparr>status := s, is_cancelled := c, is_paused := p\<rparr>]) sc
           = download_single_video i vs sc \<and>
         download_single_video i vs [] =
           Finished Succeeded
             (vs[i := (vs ! i)\<lparr>status := Downloading, is_cancelled := False, is_paused := False\<rparr>])"
  using assms by (simp add: download_single_video_def)

theorem start_resets_flags_witness:
  "download_single_video 0
       [example_item\<lparr>status := Cancelled, is_cancelled := True, is_paused := True\<rparr>]
       [Hook example_finished]
     = download_single_video 0 [example_item] [Hook example_finished] \<and>
   download_single_video 0 [example_item] [Hook example_finished]
     = Finished Succeeded [example_item\<lparr>progress := 100, status := Completed,
         output_filename := PStr ''First.mp4''\<rparr>]"
proof -
  have a: "0 < length [example_item]" by simp
  from start_resets_flags [where i = 0 and vs = "[example_item]" and s = Cancelled and c = True
      and p = True and sc = "[Hook example_finished]", OF a]
  have "download_single_video 0
       [example_item\<lparr>status := Cancelled, is_cancelled := True, is_paused := True\<rparr>]
       [Hook example_finished]
     = download_single_video 0 [example_item] [Hook example_finished]"
    by simp
  moreover have "download_single_video 0 [example_item] [Hook example_finished]
     = Finished Succeeded [example_item\<lparr>progress := 100, status := Completed,
         output_filename := PStr ''First.mp4''\<rparr>]"
    by (simp add: download_single_video_def video_progress_hook_def update_progress_def
        example_finished_def example_item_def VideoItem_def dict_get_def)
  ultimately show ?thesis by simp
qed

section \<open>Cancellation\<close>

text \<open>
  Claim C1, at a concrete input: one pending item; the library reports progress, the
  interface cancels all downloads, the library reports progress again. The second call
  of the callback raises \<^verbatim>\<open>Exception("Download cancelled")\<close>; the handler of
  \<^verbatim>\<open>download_single_video\<close> catches it and stores the status \<^verbatim>\<open>failed\<close> over the status
  \<^verbatim>\<open>cancelled\<close> that \<^verbatim>\<open>cancel_all_downloads\<close> had set.
\<close>

theorem cancelled_download_ends_failed:
  "video_progress_hook example_progress 0
       (cancel_all_downloads [example_item\<lparr>status := Downloading\<rparr>]) []
     = HookRaised (Exception ''Download cancelled'')
         [example_item\<lparr>status := Cancelled, is_cancelled := True\<rparr>] \<and>
   download_all_videos_thread
       (\<lambda>i. [Hook example_progress, UI CancelAll, Hook example_progress]) [example_item] 0
     = Done \<lparr>videos = [example_item\<lparr>progress := 50, status := Failed, filesize := PInt 1024,
                 downloaded_bytes := PInt 512, error_message := ''Download cancelled'',
                 is_cancelled := True\<rparr>],
             overall_progress = 0, completed = 0,
             visits = [(0, Pending, Some (Errored (Exception ''Download cancelled'')))]\<rparr>"
  by (simp add: download_all_videos_thread_def loop_body_def download_single_video_def
      video_progress_hook_def update_progress_def example_progress_def example_item_def VideoItem_def
      dict_get_def py_or_def py_percent_def cancel_all_downloads_def cancel_video_def)

section \<open>Playlist analysis: the items produced\<close>

lemma video_list_zip:
  "video_list k es =
     map (\<lambda>(n, v). item_of_entry n (the v)) (filter (\<lambda>(n, v). has_id v) (zip [k..<k + length es] es))"
proof (induction es arbitrary: k)
  case Nil
  show ?case by simp
next
  case (Cons v es)
  have "[k..<k + length (v # es)] = k # [Suc k..<Suc k + length es]"
    by (simp add: upt_rec)
  with Cons.IH [of "Suc k"] show ?case by simp
qed

lemma video_id_item_of_entry: "has_id (Some e) \<Longrightarrow> video_id (item_of_entry n e) = entry_id (Some e)"
  by (auto simp: has_id_def item_of_entry_def VideoItem_def entry_id_def dict_get_def
      split: option.splits)

lemma video_list_ids: "map video_id (video_list k es) = map entry_id (filter has_id es)"
proof (induction es arbitrary: k)
  case Nil
  show ?case by simp
next
  case (Cons v es)
  show ?case
  proof (cases "has_id v")
    case True
    then obtain e where "v = Some e" by (cases v) (simp_all add: has_id_def)
    with True Cons.IH [of "Suc k"] show ?thesis
      by (simp add: video_id_item_of_entry)
  next
    case False
    with Cons.IH [of "Suc k"] show ?thesis by simp
  qed
qed

lemma has_id_entry_id: "has_id v \<Longrightarrow> \<exists>s. entry_id v = MStr s \<and> s \<noteq> []"
  by (cases v; cases "entry_id v") (auto simp: has_id_def entry_id_def)

text \<open>The tree takes every row when the ids are non-empty strings, different from each other and from the rows present.\<close>

lemma insert_rows_distinct:
  "\<forall>v \<in> set vl. \<exists>s. video_id v = MStr s \<and> s \<noteq> [] \<Longrightarrow> distinct (map video_id vl) \<Longrightarrow>
   set (map video_id vl) \<inter> set rows = {} \<Longrightarrow>
   insert_rows vl rows = (rows @ map video_id vl, None)"
proof (induction vl arbitrary: rows)
  case Nil
  show ?case by simp
next
  case (Cons v vl)
  from Cons.prems(1) obtain s where s: "video_id v = MStr s" "s \<noteq> []" by auto
  from Cons.prems(3) s have n: "MStr s \<notin> set rows" by auto
  with s have t: "tree_insert (video_id v) rows = Inr (rows @ [MStr s])"
    by (simp add: tree_insert_def)
  from Cons.prems(2,3) s have d: "set (map video_id vl) \<inter> set (rows @ [MStr s]) = {}"
    by auto
  from Cons.prems have "insert_rows vl (rows @ [MStr s]) = ((rows @ [MStr s]) @ map video_id vl, None)"
    by (intro Cons.IH d) simp_all
  with t s show ?case by simp
qed

text \<open>
  Claim C2, as the code has it. For a playlist result in which the entries that have an
  id have pairwise different ids, the analysis produces one item for every entry that
  is a dict with a non-empty id, and none for the other entries
  (\<^verbatim>\<open>if video and video.get('id')\<close>); the items stand in the order of their entries and
  carry their entries' ids, so no two items have the same identifier; every item gets
  its row in the tree and no exception leaves the method. When every entry has an id,
  there are as many items as entries.
\<close>

theorem analysis_keeps_entries_with_id:
  assumes "attrs r ''_type'' = Some (MStr ''playlist'')" and "entries r = Some es"
    and "distinct (map entry_id (filter has_id es))"
  shows "process_analysis_results (Some r) =
           (map (\<lambda>(n, v). item_of_entry n (the v))
              (filter (\<lambda>(n, v). has_id v) (zip [1..<1 + length es] es)),
            map entry_id (filter has_id es), None) \<and>
         map video_id (fst (process_analysis_results (Some r))) = map entry_id (filter has_id es) \<and>
         distinct (map video_id (fst (process_analysis_results (Some r)))) \<and>
         ((\<forall>v \<in> set es. has_id v) \<longrightarrow>
            length (fst (process_analysis_results (Some r))) = length es)"
proof -
  have i: "map video_id (video_list 1 es) = map entry_id (filter has_id es)"
    by (fact video_list_ids)
  have "\<forall>v \<in> set (video_list 1 es). \<exists>s. video_id v = MStr s \<and> s \<noteq> []"
  proof
    fix v
    assume "v \<in> set (video_list 1 es)"
    then have "video_id v \<in> set (map video_id (video_list 1 es))" by simp
    then have "video_id v \<in> set (map entry_id (filter has_id es))" unfolding i .
    then obtain x where "x \<in> set es" "has_id x" "video_id v = entry_id x" by auto
    with has_id_entry_id [of x] show "\<exists>s. video_id v = MStr s \<and> s \<noteq> []" by simp
  qed
  moreover have "distinct (map video_id (video_list 1 es))"
    unfolding i by (fact assms(3))
  ultimately have "insert_rows (video_list 1 es) [] = ([] @ map video_id (video_list 1 es), None)"
    by (intro insert_rows_distinct) simp_all
  then have t: "insert_rows (video_list 1 es) [] = (map entry_id (filter has_id es), None)"
    by (simp only: i append_Nil)
  have p: "process_analysis_results (Some r) = (video_list 1 es, map entry_id (filter has_id es), None)"
    using assms(1,2) t by (simp add: process_analysis_results_def)
  have a: "(\<forall>v \<in> set es. has_id v) \<Longrightarrow> filter has_id es = es"
    by simp
  have l: "length (map video_id (video_list 1 es)) = length (map entry_id (filter has_id es))"
    by (simp only: i)
  have d: "distinct (map video_id (video_list 1 es))"
    unfolding i by (fact assms(3))
  show ?thesis
    using p a l d i video_list_zip [of 1 es] by auto
qed

theorem analysis_keeps_entries_with_id_witness:
  "map video_id (fst (process_analysis_results (Some example_playlist))) = [MStr ''a1'', MStr ''b2'']"
proof -
  have a: "attrs example_playlist ''_type'' = Some (MStr ''playlist'')"
    by (simp add: example_playlist_def)
  have b: "entries example_playlist =
      Some [None, Some [''id'' \<mapsto> MStr ''a1''], Some [''id'' \<mapsto> MStr ''b2'']]"
    by (simp add: example_playlist_def)
  have f: "map entry_id (filter has_id [None, Some [''id'' \<mapsto> MStr ''a1''], Some [''id'' \<mapsto> MStr ''b2'']])
      = [MStr ''a1'', MStr ''b2'']"
    by (simp add: has_id_def entry_id_def dict_get_def)
  then have c: "distinct (map entry_id (filter has_id
      [None, Some [''id'' \<mapsto> MStr ''a1''], Some [''id'' \<mapsto> MStr ''b2'']]))"
    by simp
  from analysis_keeps_entries_with_id [OF a b c]
  have "map video_id (fst (process_analysis_results (Some example_playlist))) =
      map entry_id (filter has_id [None, Some [''id'' \<mapsto> MStr ''a1''], Some [''id'' \<mapsto> MStr ''b2'']])"
    by blast
  with f show ?thesis by simp
qed

text \<open>
  The claim as stated fails on a playlist of three entries of which the first is
  \<^verbatim>\<open>None\<close>: the analysis ends without an exception and has produced two items.
\<close>

theorem analysis_drops_entry_without_id:
  "length (the (entries example_playlist)) = 3 \<and>
   snd (snd (process_analysis_results (Some example_playlist))) = None \<and>
   length (fst (process_analysis_results (Some example_playlist))) = 2"
  by (simp add: process_analysis_results_def example_playlist_def has_id_def dict_get_def
      item_of_entry_def VideoItem_def tree_insert_def)

text \<open>
  A playlist that holds the same video twice: both items are in \<^verbatim>\<open>self.videos\<close>, the
  tree has taken the first row and refused the second, and the \<^verbatim>\<open>TclError\<close> leaves the
  method.
\<close>

lemma analysis_repeated_id_raises:
  "map video_id (fst (process_analysis_results (Some example_repeated_playlist)))
     = [MStr ''a1'', MStr ''a1''] \<and>
   snd (process_analysis_results (Some example_repeated_playlist))
     = ([MStr ''a1''], Some (TclError ''Item a1 already exists''))"
  by (simp add: process_analysis_results_def example_repeated_playlist_def has_id_def dict_get_def
      item_of_entry_def VideoItem_def tree_insert_def)

section \<open>Configuration: saving and loading\<close>

text \<open>
  Claim C8. After an instance with the download path \<open>p\<close> has saved its configuration
  (the file can be written), a fresh instance that loads it has the path \<open>p\<close>; and a
  fresh instance that finds no configuration file keeps the path it was built with,
  the \<^verbatim>\<open>Downloads\<close> folder of the user's home.
\<close>

theorem config_round_trip:
  "(writable fs ''downloader_config.json'' \<longrightarrow>
      download_path (load_config (save_config ((init_config h0)\<lparr>download_path := JStr p\<rparr>) fs)
                       (init_config h)) = JStr p) \<and>
   (files fs ''downloader_config.json'' = None \<longrightarrow>
      download_path (load_config fs (init_config h)) = JStr h)"
  by (simp add: load_config_def save_config_def init_config_def)

theorem config_round_trip_witness:
  "writable example_filesystem ''downloader_config.json'' \<and>
   download_path (load_config
       (save_config ((init_config ''/home/u/Downloads'')\<lparr>download_path := JStr ''/data/videos''\<rparr>)
          example_filesystem)
       (init_config ''/home/u/Downloads'')) = JStr ''/data/videos'' \<and>
   files example_filesystem ''downloader_config.json'' = None \<and>
   download_path (load_config example_filesystem (init_config ''/home/u/Downloads''))
     = JStr ''/home/u/Downloads''"
proof -
  have w: "writable example_filesystem ''downloader_config.json''"
    by (simp add: example_filesystem_def)
  have n: "files example_filesystem ''downloader_config.json'' = None"
    by (simp add: example_filesystem_def)
  from config_round_trip [where fs = example_filesystem and h0 = "''/home/u/Downloads''"
      and p = "''/data/videos''" and h = "''/home/u/Downloads''"] w n
  show ?thesis by blast
qed

section \<open>Waiting while paused\<close>

lemma length_fold_ui [simp]: "length (fold apply_ui acts vs) = length vs"
  by (induction acts arbitrary: vs) simp_all

lemma stable_fold_ui:
  assumes "stable P"
  shows "j < length vs \<Longrightarrow> P (vs ! j) \<Longrightarrow> P (fold apply_ui acts vs ! j)"
proof (induction acts arbitrary: vs)
  case Nil
  then show ?case by simp
next
  case (Cons a acts)
  have "P (apply_ui a vs ! j)" by (fact stable_apply_ui [OF assms Cons.prems])
  with Cons.IH [of "apply_ui a vs"] Cons.prems(1) show ?case by simp
qed

lemma wait_blocked:
  "\<forall>n \<le> length acts. is_paused (fold apply_ui (take n acts) vs ! i) \<Longrightarrow>
   wait_while_paused i vs (map UI acts) = Stuck (fold apply_ui acts vs)"
proof (induction acts arbitrary: vs)
  case Nil
  then show ?case by simp
next
  case (Cons a acts)
  from Cons.prems have p: "is_paused (vs ! i)" by force
  have "\<forall>n \<le> length acts. is_paused (fold apply_ui (take n acts) (apply_ui a vs) ! i)"
  proof (intro allI impI)
    fix n
    assume "n \<le> length acts"
    then have "Suc n \<le> length (a # acts)" by simp
    with Cons.prems have "is_paused (fold apply_ui (take (Suc n) (a # acts)) vs ! i)" by blast
    then show "is_paused (fold apply_ui (take n acts) (apply_ui a vs) ! i)" by simp
  qed
  from Cons.IH [OF this] p show ?case by simp
qed

lemma wait_resumed:
  "\<forall>n \<le> length acts. is_paused (fold apply_ui (take n acts) vs ! i) \<Longrightarrow>
   \<not> is_paused (apply_ui a (fold apply_ui acts vs) ! i) \<Longrightarrow>
   wait_while_paused i vs (map UI acts @ UI a # tr) = Resumed (apply_ui a (fold apply_ui acts vs)) tr"
proof (induction acts arbitrary: vs)
  case Nil
  then show ?case by (simp add: wait_not_paused)
next
  case (Cons b acts)
  from Cons.prems(1) have p: "is_paused (vs ! i)" by force
  have "\<forall>n \<le> length acts. is_paused (fold apply_ui (take n acts) (apply_ui b vs) ! i)"
  proof (intro allI impI)
    fix n
    assume "n \<le> length acts"
    then have "Suc n \<le> length (b # acts)" by simp
    with Cons.prems(1) have "is_paused (fold apply_ui (take (Suc n) (b # acts)) vs ! i)" by blast
    then show "is_paused (fold apply_ui (take n acts) (apply_ui b vs) ! i)" by simp
  qed
  from Cons.IH [OF this] Cons.prems(2) p show ?case by simp
qed

lemma stable_untouched:
  "stable (\<lambda>v. progress v = x \<and> downloaded_bytes v = b \<and> filesize v = t \<and> speed v = s \<and> eta v = e)"
  by (simp add: stable_def pause_video_def resume_video_def cancel_video_def)

lemma stable_paused_cancelled:
  "stable (\<lambda>v. is_paused v \<and> is_cancelled v \<and> status v = Cancelled)"
  by (simp add: stable_def pause_video_def resume_video_def cancel_video_def)

text \<open>
  Claim C6, as the code has it. The callback checks the cancel flag before it waits, so
  the claim needs an item whose cancel flag is clear at the call. Then, as long as the
  pause flag stays set under the actions \<open>acts\<close> of the interface, the call of the
  callback neither returns nor raises, and the items are as the interface left them: the
  callback has written nothing, and progress, byte counters, speed and ETA of the item
  are those from before the call. With a further action \<open>a\<close> that clears the flag, the
  same call goes on to the update for its event \<open>d\<close>.
\<close>

theorem paused_callback_blocks:
  assumes "i < length vs" and "\<not> is_cancelled (vs ! i)"
    and "\<forall>n \<le> length acts. is_paused (fold apply_ui (take n acts) vs ! i)"
  shows "video_progress_hook d i vs (map UI acts) = HookBlocked (fold apply_ui acts vs) \<and>
         progress (fold apply_ui acts vs ! i) = progress (vs ! i) \<and>
         downloaded_bytes (fold apply_ui acts vs ! i) = downloaded_bytes (vs ! i) \<and>
         filesize (fold apply_ui acts vs ! i) = filesize (vs ! i) \<and>
         speed (fold apply_ui acts vs ! i) = speed (vs ! i) \<and>
         eta (fold apply_ui acts vs ! i) = eta (vs ! i) \<and>
         (\<not> is_paused (apply_ui a (fold apply_ui acts vs) ! i) \<longrightarrow>
            video_progress_hook d i vs (map UI acts @ UI a # tr) =
              (case update_progress d (apply_ui a (fold apply_ui acts vs) ! i) of
                 (v, None) \<Rightarrow> HookReturned ((apply_ui a (fold apply_ui acts vs))[i := v]) tr
               | (v, Some e) \<Rightarrow> HookRaised e ((apply_ui a (fold apply_ui acts vs))[i := v])))"
proof -
  have b: "video_progress_hook d i vs (map UI acts) = HookBlocked (fold apply_ui acts vs)"
    using assms(2) wait_blocked [OF assms(3)] by (simp add: video_progress_hook_def)
  have u: "progress (fold apply_ui acts vs ! i) = progress (vs ! i) \<and>
      downloaded_bytes (fold apply_ui acts vs ! i) = downloaded_bytes (vs ! i) \<and>
      filesize (fold apply_ui acts vs ! i) = filesize (vs ! i) \<and>
      speed (fold apply_ui acts vs ! i) = speed (vs ! i) \<and>
      eta (fold apply_ui acts vs ! i) = eta (vs ! i)"
    using stable_fold_ui [OF stable_untouched assms(1), of "progress (vs ! i)"
        "downloaded_bytes (vs ! i)" "filesize (vs ! i)" "speed (vs ! i)" "eta (vs ! i)" acts]
    by simp
  have r: "\<not> is_paused (apply_ui a (fold apply_ui acts vs) ! i) \<Longrightarrow>
      video_progress_hook d i vs (map UI acts @ UI a # tr) =
        (case update_progress d (apply_ui a (fold apply_ui acts vs) ! i) of
           (v, None) \<Rightarrow> HookReturned ((apply_ui a (fold apply_ui acts vs))[i := v]) tr
         | (v, Some e) \<Rightarrow> HookRaised e ((apply_ui a (fold apply_ui acts vs))[i := v]))"
    using assms(2) wait_resumed [OF assms(3)] by (simp add: video_progress_hook_def)
  from b u r show ?thesis by blast
qed

theorem paused_callback_blocks_witness:
  "video_progress_hook example_progress 0 example_paused [UI PauseAll] = HookBlocked example_paused \<and>
   video_progress_hook example_progress 0 example_paused [UI PauseAll, UI ResumeAll]
     = HookReturned [example_item\<lparr>progress := 50, status := Downloading, filesize := PInt 1024,
          downloaded_bytes := PInt 512\<rparr>] []"
proof -
  have p: "pause_all_downloads example_paused = example_paused"
    by (simp add: example_paused_def example_item_def VideoItem_def pause_all_downloads_def
        pause_video_def)
  have q: "is_paused (example_paused ! 0)"
    by (simp add: example_paused_def example_item_def VideoItem_def pause_all_downloads_def
        pause_video_def)
  have a: "0 < length example_paused"
    by (simp add: example_paused_def pause_all_downloads_def)
  have b: "\<not> is_cancelled (example_paused ! 0)"
    by (simp add: example_paused_def example_item_def VideoItem_def pause_all_downloads_def
        pause_video_def)
  have c: "\<forall>n \<le> length [PauseAll]. is_paused (fold apply_ui (take n [PauseAll]) example_paused ! 0)"
  proof (intro allI impI)
    fix n :: nat
    assume "n \<le> length [PauseAll]"
    then have "n = 0 \<or> n = 1" by auto
    then show "is_paused (fold apply_ui (take n [PauseAll]) example_paused ! 0)"
      using p q by auto
  qed
  have r: "\<not> is_paused (apply_ui ResumeAll (fold apply_ui [PauseAll] example_paused) ! 0)"
    by (simp add: p) (simp add: example_paused_def example_item_def VideoItem_def
        pause_all_downloads_def pause_video_def resume_all_downloads_def resume_video_def)
  note t = paused_callback_blocks [where d = example_progress and a = ResumeAll and tr = "[]", OF a b c]
  from t have "video_progress_hook example_progress 0 example_paused (map UI [PauseAll])
      = HookBlocked (fold apply_ui [PauseAll] example_paused)"
    by blast
  then have one: "video_progress_hook example_progress 0 example_paused [UI PauseAll]
      = HookBlocked example_paused"
    by (simp add: p)
  from t r have "video_progress_hook example_progress 0 example_paused (map UI [PauseAll] @ [UI ResumeAll]) =
      (case update_progress example_progress (apply_ui ResumeAll (fold apply_ui [PauseAll] example_paused) ! 0) of
         (v, None) \<Rightarrow> HookReturned ((apply_ui ResumeAll (fold apply_ui [PauseAll] example_paused))[0 := v]) []
       | (v, Some e) \<Rightarrow> HookRaised e ((apply_ui ResumeAll (fold apply_ui [PauseAll] example_paused))[0 := v]))"
    by blast
  then have two: "video_progress_hook example_progress 0 example_paused [UI PauseAll, UI ResumeAll]
     = HookReturned [example_item\<lparr>progress := 50, status := Downloading, filesize := PInt 1024,
          downloaded_bytes := PInt 512\<rparr>] []"
    by (simp add: p) (simp add: example_paused_def example_item_def VideoItem_def
        pause_all_downloads_def pause_video_def resume_all_downloads_def resume_video_def
        update_progress_def example_progress_def dict_get_def py_or_def py_percent_def)
  from one two show ?thesis by simp
qed

text \<open>
  The claim as stated fails for an item that was paused and then cancelled before the
  callback is called: its pause flag is set, and the call raises at once.
\<close>

theorem paused_and_cancelled_raises:
  "is_paused (cancel_all_downloads example_paused ! 0) \<and>
   video_progress_hook example_progress 0 (cancel_all_downloads example_paused) [UI ResumeAll]
     = HookRaised (Exception ''Download cancelled'') (cancel_all_downloads example_paused)"
  by (simp add: video_progress_hook_def example_paused_def example_item_def VideoItem_def
      pause_all_downloads_def pause_video_def cancel_all_downloads_def cancel_video_def)

text \<open>
  Claim C9. An item is paused and its download is waiting in the callback (the cancel
  flag was clear at the call). \<^verbatim>\<open>cancel_all_downloads\<close> sets its cancel flag and leaves
  its pause flag set. The callback does not look at the cancel flag while it waits: the
  call does not raise, it stays blocked. No later action of the control surface ends
  the wait either, since the item's status is now \<^verbatim>\<open>cancelled\<close> and resuming needs the
  status \<^verbatim>\<open>paused\<close>.
\<close>

theorem cancel_while_paused_stays_blocked:
  assumes "i < length vs" and "is_paused (vs ! i)" and "\<not> is_cancelled (vs ! i)"
    and "status (vs ! i) = Downloading \<or> status (vs ! i) = Paused"
  shows "is_cancelled (cancel_all_downloads vs ! i) \<and> is_paused (cancel_all_downloads vs ! i) \<and>
         video_progress_hook d i vs (UI CancelAll # map UI acts)
           = HookBlocked (fold apply_ui acts (cancel_all_downloads vs)) \<and>
         is_paused (fold apply_ui acts (cancel_all_downloads vs) ! i)"
proof -
  let ?ws = "cancel_all_downloads vs"
  have c: "is_paused (?ws ! i) \<and> is_cancelled (?ws ! i) \<and> status (?ws ! i) = Cancelled"
    using assms by (auto simp: cancel_all_downloads_def cancel_video_def)
  have l: "i < length ?ws"
    using assms(1) by (simp add: cancel_all_downloads_def)
  have k: "is_paused (fold apply_ui xs ?ws ! i) \<and> is_cancelled (fold apply_ui xs ?ws ! i)
      \<and> status (fold apply_ui xs ?ws ! i) = Cancelled" for xs
    by (fact stable_fold_ui [OF stable_paused_cancelled l c])
  then have "\<forall>n \<le> length acts. is_paused (fold apply_ui (take n acts) ?ws ! i)"
    by blast
  from wait_blocked [OF this] assms(2,3)
  have "video_progress_hook d i vs (UI CancelAll # map UI acts) = HookBlocked (fold apply_ui acts ?ws)"
    by (simp add: video_progress_hook_def)
  with c k show ?thesis by blast
qed

theorem cancel_while_paused_stays_blocked_witness:
  "is_cancelled (cancel_all_downloads example_paused ! 0) \<and>
   is_paused (cancel_all_downloads example_paused ! 0) \<and>
   video_progress_hook example_progress 0 example_paused [UI CancelAll, UI ResumeAll, UI (DoubleClick ''a1'')]
     = HookBlocked [example_item\<lparr>status := Cancelled, is_paused := True, is_cancelled := True\<rparr>]"
proof -
  have a: "0 < length example_paused"
    by (simp add: example_paused_def pause_all_downloads_def)
  have b: "is_paused (example_paused ! 0)"
    by (simp add: example_paused_def example_item_def VideoItem_def pause_all_downloads_def
        pause_video_def)
  have c: "\<not> is_cancelled (example_paused ! 0)"
    by (simp add: example_paused_def example_item_def VideoItem_def pause_all_downloads_def
        pause_video_def)
  have s: "status (example_paused ! 0) = Downloading \<or> status (example_paused ! 0) = Paused"
    by (simp add: example_paused_def example_item_def VideoItem_def pause_all_downloads_def
        pause_video_def)
  have e: "fold apply_ui [ResumeAll, DoubleClick ''a1''] (cancel_all_downloads example_paused)
      = [example_item\<lparr>status := Cancelled, is_paused := True, is_cancelled := True\<rparr>]"
    by (simp add: example_paused_def example_item_def VideoItem_def pause_all_downloads_def
        pause_video_def cancel_all_downloads_def cancel_video_def resume_all_downloads_def
        resume_video_def on_video_double_click_def)
  from cancel_while_paused_stays_blocked [where d = example_progress
      and acts = "[ResumeAll, DoubleClick ''a1'']", OF a b c s] e
  show ?thesis by simp
qed

section \<open>One download\<close>

lemma stable_settled: "stable settled"
  by (simp add: stable_def settled_def pause_video_def resume_video_def cancel_video_def)

lemma stable_unsettled: "stable (\<lambda>v. \<not> settled v)"
  by (simp add: stable_def settled_def pause_video_def resume_video_def cancel_video_def)

lemma stable_completed: "stable (\<lambda>v. status v = Completed)"
  by (simp add: stable_def pause_video_def resume_video_def cancel_video_def)

lemma stable_failed: "stable (\<lambda>v. status v = Failed \<and> error_message v = m)"
  by (simp add: stable_def pause_video_def resume_video_def cancel_video_def)

lemma wait_keeps_finished:
  "wait_while_paused i vs tr = Resumed ws tr1 \<Longrightarrow> delivers_finished tr \<Longrightarrow> delivers_finished tr1"
proof (induction tr arbitrary: vs)
  case Nil
  then show ?case by (simp add: delivers_finished_def)
next
  case (Cons s tr)
  show ?case
  proof (cases "is_paused (vs ! i)")
    case False
    with Cons.prems show ?thesis by simp
  next
    case True
    with Cons.prems(1) obtain a where s: "s = UI a"
      and w: "wait_while_paused i (apply_ui a vs) tr = Resumed ws tr1"
      by (cases s) simp_all
    from Cons.prems(2) s have "delivers_finished tr"
      by (simp add: delivers_finished_def)
    with Cons.IH [OF w] show ?thesis .
  qed
qed

lemma update_progress_completed:
  "status v = Completed \<or> d ''status'' = Some (PStr ''finished'') \<Longrightarrow>
   update_progress d v = (v1, None) \<Longrightarrow> status v1 = Completed"
  by (auto simp: update_progress_def Let_def split: option.splits if_splits sum.splits bool.splits)

lemma hook_completed:
  assumes "video_progress_hook d i vs tr = HookReturned vs1 tr1" and "i < length vs"
    and "status (vs ! i) = Completed \<or> delivers_finished (Hook d # tr)"
  shows "status (vs1 ! i) = Completed \<or> delivers_finished tr1"
proof -
  from assms(1) obtain ws v where w: "wait_while_paused i vs tr = Resumed ws tr1"
    and u: "update_progress d (ws ! i) = (v, None)" and e: "vs1 = ws[i := v]"
    by (auto simp: video_progress_hook_def split: if_splits wait_result.splits prod.splits
        option.splits)
  have l: "length ws = length vs"
    using length_wait [of i vs tr] w by simp
  show ?thesis
  proof (cases "delivers_finished tr")
    case True
    with wait_keeps_finished [OF w] show ?thesis by simp
  next
    case False
    with assms(3) have c: "status (vs ! i) = Completed \<or> d ''status'' = Some (PStr ''finished'')"
      by (auto simp: delivers_finished_def)
    have "status (ws ! i) = Completed \<or> d ''status'' = Some (PStr ''finished'')"
    proof (cases "status (vs ! i) = Completed")
      case True
      from stable_wait [OF stable_completed assms(2) True, of i tr] w show ?thesis by simp
    next
      case False
      with c show ?thesis by simp
    qed
    from update_progress_completed [OF this u] e l assms(2) show ?thesis by simp
  qed
qed

lemma ydl_completed:
  "ydl_download i vs sc = Returned vs1 \<Longrightarrow> i < length vs \<Longrightarrow>
   status (vs ! i) = Completed \<or> delivers_finished sc \<Longrightarrow> status (vs1 ! i) = Completed"
proof (induction i vs sc rule: ydl_download.induct)
  case (1 i vs)
  then show ?case by (simp add: delivers_finished_def)
next
  case (2 i vs a tr)
  have "status (apply_ui a vs ! i) = Completed \<or> delivers_finished tr"
  proof (cases "status (vs ! i) = Completed")
    case True
    from stable_apply_ui [OF stable_completed "2.prems"(2) True] show ?thesis by simp
  next
    case False
    with "2.prems"(3) show ?thesis by (simp add: delivers_finished_def)
  qed
  with "2.IH" "2.prems"(1,2) show ?case by simp
next
  case (3 i vs e tr)
  then show ?case by simp
next
  case (4 i vs d tr)
  from "4.prems"(1) obtain ws tr1 where h: "video_progress_hook d i vs tr = HookReturned ws tr1"
    and y: "ydl_download i ws tr1 = Returned vs1"
    by (cases "video_progress_hook d i vs tr") simp_all
  have l: "length ws = length vs"
    using length_hook [of d i vs tr] h by simp
  from hook_completed [OF h "4.prems"(2,3)]
  have "status (ws ! i) = Completed \<or> delivers_finished tr1" .
  with "4.IH" [OF h y] l "4.prems"(2) show ?case by simp
qed

lemma attempt_succeeded:
  assumes "download_single_video i vs sc = Finished Succeeded vs1" and "i < length vs"
    and "delivers_finished sc"
  shows "status (vs1 ! i) = Completed"
proof -
  let ?vs0 = "vs[i := (vs ! i)\<lparr>status := Downloading, is_cancelled := False, is_paused := False\<rparr>]"
  from assms(1) have "ydl_download i ?vs0 sc = Returned vs1"
    by (cases "ydl_download i ?vs0 sc") (simp_all add: download_single_video_def)
  from ydl_completed [OF this] assms(2,3) show ?thesis by simp
qed

lemma attempt_errored:
  assumes "download_single_video i vs sc = Finished (Errored e) vs1" and "i < length vs"
  shows "status (vs1 ! i) = Failed \<and> error_message (vs1 ! i) = str_exn e"
proof -
  let ?vs0 = "vs[i := (vs ! i)\<lparr>status := Downloading, is_cancelled := False, is_paused := False\<rparr>]"
  from assms(1) obtain ws where y: "ydl_download i ?vs0 sc = Raised e ws"
    and v: "vs1 = ws[i := (ws ! i)\<lparr>status := Failed, error_message := str_exn e\<rparr>]"
    by (cases "ydl_download i ?vs0 sc") (simp_all add: download_single_video_def)
  have "length ws = length vs"
    using length_ydl [of i ?vs0 sc] y by simp
  with v assms(2) show ?thesis by simp
qed

lemma attempt_returns: "download_single_video i vs sc = Finished r vs1 \<Longrightarrow> r \<noteq> NoReturn"
  by (auto simp: download_single_video_def Let_def split: run_result.splits)

section \<open>The loop over the items\<close>

lemma loop_body_cases:
  obtains (skip) "settled (videos st ! i)"
      "loop_body env n i st = Done (st\<lparr>visits := visits st @ [(i, status (videos st ! i), None)]\<rparr>)"
  | (hung) vs1 where "\<not> settled (videos st ! i)"
      "download_single_video i (videos st) (env i) = Hung vs1"
      "loop_body env n i st =
         Halted (st\<lparr>videos := vs1, visits := visits st @ [(i, status (videos st ! i), Some NoReturn)]\<rparr>)"
  | (counted) r vs1 where "\<not> settled (videos st ! i)"
      "download_single_video i (videos st) (env i) = Finished r vs1"
      "status (vs1 ! i) = Completed"
      "loop_body env n i st =
         Done (st\<lparr>videos := vs1, visits := visits st @ [(i, status (videos st ! i), Some r)],
                  completed := completed st + 1,
                  overall_progress := (real (completed st + 1) / real n) * 100\<rparr>)"
  | (other) r vs1 where "\<not> settled (videos st ! i)"
      "download_single_video i (videos st) (env i) = Finished r vs1"
      "status (vs1 ! i) \<noteq> Completed"
      "loop_body env n i st =
         Done (st\<lparr>videos := vs1, visits := visits st @ [(i, status (videos st ! i), Some r)]\<rparr>)"
proof (cases "settled (videos st ! i)")
  case True
  then have "loop_body env n i st = Done (st\<lparr>visits := visits st @ [(i, status (videos st ! i), None)]\<rparr>)"
    by (simp add: loop_body_def settled_def Let_def)
  with True skip show ?thesis by blast
next
  case False
  show ?thesis
  proof (cases "download_single_video i (videos st) (env i)")
    case (Hung vs1)
    with False have "loop_body env n i st =
         Halted (st\<lparr>videos := vs1, visits := visits st @ [(i, status (videos st ! i), Some NoReturn)]\<rparr>)"
      by (simp add: loop_body_def settled_def Let_def)
    with False Hung hung show ?thesis by blast
  next
    case (Finished r vs1)
    show ?thesis
    proof (cases "status (vs1 ! i) = Completed")
      case True
      with False Finished have "loop_body env n i st =
         Done (st\<lparr>videos := vs1, visits := visits st @ [(i, status (videos st ! i), Some r)],
                  completed := completed st + 1,
                  overall_progress := (real (completed st + 1) / real n) * 100\<rparr>)"
        by (simp add: loop_body_def settled_def Let_def)
      with False Finished True counted show ?thesis by blast
    next
      case c: False
      with False Finished have "loop_body env n i st =
         Done (st\<lparr>videos := vs1, visits := visits st @ [(i, status (videos st ! i), Some r)]\<rparr>)"
        by (simp add: loop_body_def settled_def Let_def)
      with False Finished c other show ?thesis by blast
    qed
  qed
qed

lemma length_loop_body [simp]:
  "length (videos (state_of (loop_body env n i st))) = length (videos st)"
proof (cases rule: loop_body_cases [of st i env n])
  case skip
  then show ?thesis by simp
next
  case (hung vs1)
  with length_attempt [of i "videos st" "env i"] show ?thesis by simp
next
  case (counted r vs1)
  with length_attempt [of i "videos st" "env i"] show ?thesis by simp
next
  case (other r vs1)
  with length_attempt [of i "videos st" "env i"] show ?thesis by simp
qed

lemma stable_loop_body:
  assumes "stable P" and "j < length (videos st)" and "j \<noteq> i \<or> settled (videos st ! j)"
    and "P (videos st ! j)"
  shows "P (videos (state_of (loop_body env n i st)) ! j)"
proof (cases rule: loop_body_cases [of st i env n])
  case skip
  with assms(4) show ?thesis by simp
next
  case (hung vs1)
  with assms(3) have "j \<noteq> i" by blast
  from stable_attempt [OF assms(1) this assms(2,4), of "env i"] hung show ?thesis by simp
next
  case (counted r vs1)
  with assms(3) have "j \<noteq> i" by blast
  from stable_attempt [OF assms(1) this assms(2,4), of "env i"] counted show ?thesis by simp
next
  case (other r vs1)
  with assms(3) have "j \<noteq> i" by blast
  from stable_attempt [OF assms(1) this assms(2,4), of "env i"] other show ?thesis by simp
qed

lemma length_download_loop [simp]:
  "length (videos (state_of (download_loop env n is st))) = length (videos st)"
proof (induction "is" arbitrary: st)
  case Nil
  show ?case by simp
next
  case (Cons i rest)
  have l: "length (videos (state_of (loop_body env n i st))) = length (videos st)" by simp
  show ?case
  proof (cases "loop_body env n i st")
    case (Done st1)
    with l Cons.IH [of st1] show ?thesis by simp
  next
    case (Halted st1)
    with l show ?thesis by simp
  qed
qed

lemma stable_download_loop:
  assumes "stable P"
  shows "j < length (videos st) \<Longrightarrow> j \<notin> set is \<or> settled (videos st ! j) \<Longrightarrow> P (videos st ! j) \<Longrightarrow>
         P (videos (state_of (download_loop env n is st)) ! j)"
proof (induction "is" arbitrary: st)
  case Nil
  then show ?case by simp
next
  case (Cons i rest)
  from Cons.prems(2) have c: "j \<noteq> i \<or> settled (videos st ! j)" by auto
  have p: "P (videos (state_of (loop_body env n i st)) ! j)"
    by (fact stable_loop_body [OF assms Cons.prems(1) c Cons.prems(3)])
  have s: "j \<notin> set rest \<or> settled (videos (state_of (loop_body env n i st)) ! j)"
  proof (cases "settled (videos st ! j)")
    case True
    from stable_loop_body [OF stable_settled Cons.prems(1) c True] show ?thesis by simp
  next
    case False
    with Cons.prems(2) show ?thesis by auto
  qed
  have l: "length (videos (state_of (loop_body env n i st))) = length (videos st)" by simp
  show ?case
  proof (cases "loop_body env n i st")
    case (Done st1)
    with Cons.IH [of st1] p s l Cons.prems(1) show ?thesis by simp
  next
    case (Halted st1)
    with p show ?thesis by simp
  qed
qed

text \<open>What one pass of the loop body adds to the log of visits.\<close>

lemma loop_body_visit:
  "\<exists>oc. visits (state_of (loop_body env n i st)) = visits st @ [(i, status (videos st ! i), oc)] \<and>
        (oc = None) = settled (videos st ! i) \<and>
        (oc = Some NoReturn) = (\<exists>st1. loop_body env n i st = Halted st1)"
proof (cases rule: loop_body_cases [of st i env n])
  case skip
  then show ?thesis by simp
next
  case (hung vs1)
  then show ?thesis by simp
next
  case (counted r vs1)
  with attempt_returns [of i "videos st" "env i" r vs1] show ?thesis by simp
next
  case (other r vs1)
  with attempt_returns [of i "videos st" "env i" r vs1] show ?thesis by simp
qed

text \<open>
  The log after the loop: one entry for each position visited, in the order of the
  positions; all of them when the loop ends, and a call that does not return only as
  the last entry.
\<close>

lemma download_loop_visits:
  assumes "distinct is" and "\<forall>i \<in> set is. i < length (videos st)"
  shows "\<exists>ents. visits (state_of (download_loop env n is st)) = visits st @ ents \<and>
           map fst ents = take (length ents) is \<and>
           ((\<exists>st1. download_loop env n is st = Done st1) \<longrightarrow> length ents = length is) \<and>
           (\<forall>e \<in> set ents. (snd (snd e) = None) = settled (videos st ! fst e) \<and>
                             (snd (snd e) = None) = (fst (snd e) = Completed \<or> fst (snd e) = Failed)) \<and>
           (\<forall>e \<in> set (butlast ents). snd (snd e) \<noteq> Some NoReturn)"
  using assms
proof (induction "is" arbitrary: st)
  case Nil
  show ?case by simp
next
  case (Cons i rest)
  from loop_body_visit [of env n i st] obtain oc where
    v: "visits (state_of (loop_body env n i st)) = visits st @ [(i, status (videos st ! i), oc)]"
    and o: "(oc = None) = settled (videos st ! i)"
    and h: "(oc = Some NoReturn) = (\<exists>st1. loop_body env n i st = Halted st1)"
    by blast
  show ?case
  proof (cases "loop_body env n i st")
    case (Halted st1)
    with v o show ?thesis
      by (intro exI [of _ "[(i, status (videos st ! i), oc)]"]) (simp add: settled_def)
  next
    case (Done st1)
    with h have nr: "oc \<noteq> Some NoReturn" by simp
    from Done v have v1: "visits st1 = visits st @ [(i, status (videos st ! i), oc)]" by simp
    have l1: "length (videos st1) = length (videos st)"
      using length_loop_body [of env n i st] Done by simp
    from Cons.prems have d: "distinct rest" and b: "\<forall>j \<in> set rest. j < length (videos st1)"
      and ni: "i \<notin> set rest"
      by (simp_all add: l1)
    from Cons.IH [OF d b] obtain ents where
      e1: "visits (state_of (download_loop env n rest st1)) = visits st1 @ ents"
      and e2: "map fst ents = take (length ents) rest"
      and e3: "(\<exists>st2. download_loop env n rest st1 = Done st2) \<longrightarrow> length ents = length rest"
      and e4: "\<forall>e \<in> set ents. (snd (snd e) = None) = settled (videos st1 ! fst e) \<and>
                 (snd (snd e) = None) = (fst (snd e) = Completed \<or> fst (snd e) = Failed)"
      and e5: "\<forall>e \<in> set (butlast ents). snd (snd e) \<noteq> Some NoReturn"
      by blast
    have same: "settled (videos st1 ! j) = settled (videos st ! j)" if "j \<in> set rest" for j
    proof -
      from that ni have ne: "j \<noteq> i \<or> settled (videos st ! j)" by auto
      from that Cons.prems(2) have lt: "j < length (videos st)" by simp
      show ?thesis
      proof (cases "settled (videos st ! j)")
        case True
        from stable_loop_body [OF stable_settled lt ne True, of env n] Done True show ?thesis
          by simp
      next
        case False
        from stable_loop_body [OF stable_unsettled lt ne False, of env n] Done False show ?thesis
          by simp
      qed
    qed
    have mem: "fst e \<in> set rest" if "e \<in> set ents" for e
    proof -
      from that have "fst e \<in> set (map fst ents)" by simp
      with e2 have "fst e \<in> set (take (length ents) rest)" by simp
      then show ?thesis by (rule in_set_takeD)
    qed
    let ?ents = "(i, status (videos st ! i), oc) # ents"
    have a1: "visits (state_of (download_loop env n (i # rest) st)) = visits st @ ?ents"
      using Done e1 v1 by simp
    have a2: "map fst ?ents = take (length ?ents) (i # rest)"
      using e2 by simp
    have a3: "(\<exists>st2. download_loop env n (i # rest) st = Done st2) \<longrightarrow> length ?ents = length (i # rest)"
      using Done e3 by simp
    have a4: "\<forall>e \<in> set ?ents. (snd (snd e) = None) = settled (videos st ! fst e) \<and>
                 (snd (snd e) = None) = (fst (snd e) = Completed \<or> fst (snd e) = Failed)"
    proof
      fix e
      assume "e \<in> set ?ents"
      then consider "e = (i, status (videos st ! i), oc)" | "e \<in> set ents" by auto
      then show "(snd (snd e) = None) = settled (videos st ! fst e) \<and>
                 (snd (snd e) = None) = (fst (snd e) = Completed \<or> fst (snd e) = Failed)"
      proof cases
        case 1
        with o show ?thesis by (simp add: settled_def)
      next
        case 2
        with e4 same [OF mem [OF 2]] show ?thesis by blast
      qed
    qed
    have a5: "\<forall>e \<in> set (butlast ?ents). snd (snd e) \<noteq> Some NoReturn"
      using e5 nr by (cases ents) auto
    from a1 a2 a3 a4 a5 show ?thesis by blast
  qed
qed

lemma upt_take: "n \<le> m \<Longrightarrow> take n [0..<m] = [0..<n]"
  by (simp add: min_def)

lemma thread_visits:
  "map fst (visits (state_of (download_all_videos_thread env vs bar)))
     = [0..<length (visits (state_of (download_all_videos_thread env vs bar)))] \<and>
   length (visits (state_of (download_all_videos_thread env vs bar))) \<le> length vs \<and>
   ((\<exists>st. download_all_videos_thread env vs bar = Done st) \<longrightarrow>
      length (visits (state_of (download_all_videos_thread env vs bar))) = length vs) \<and>
   (\<forall>e \<in> set (visits (state_of (download_all_videos_thread env vs bar))).
      (snd (snd e) = None) = settled (vs ! fst e) \<and>
      (snd (snd e) = None) = (fst (snd e) = Completed \<or> fst (snd e) = Failed)) \<and>
   (\<forall>e \<in> set (butlast (visits (state_of (download_all_videos_thread env vs bar)))).
      snd (snd e) \<noteq> Some NoReturn)"
proof -
  let ?st0 = "\<lparr>videos = vs, overall_progress = bar, completed = 0, visits = []\<rparr>"
  have d: "distinct [0..<length vs]" by simp
  have b: "\<forall>i \<in> set [0..<length vs]. i < length (videos ?st0)" by simp
  from download_loop_visits [OF d b, of env "length vs"] obtain ents where
    e1: "visits (state_of (download_loop env (length vs) [0..<length vs] ?st0)) = visits ?st0 @ ents"
    and e2: "map fst ents = take (length ents) [0..<length vs]"
    and e3: "(\<exists>st1. download_loop env (length vs) [0..<length vs] ?st0 = Done st1) \<longrightarrow>
               length ents = length [0..<length vs]"
    and e4: "\<forall>e \<in> set ents. (snd (snd e) = None) = settled (videos ?st0 ! fst e) \<and>
               (snd (snd e) = None) = (fst (snd e) = Completed \<or> fst (snd e) = Failed)"
    and e5: "\<forall>e \<in> set (butlast ents). snd (snd e) \<noteq> Some NoReturn"
    by blast
  have "length (map fst ents) = length (take (length ents) [0..<length vs])"
    by (simp only: e2)
  then have le: "length ents \<le> length vs" by simp
  with e2 have m: "map fst ents = [0..<length ents]" by (simp add: upt_take)
  from e1 have v: "visits (state_of (download_all_videos_thread env vs bar)) = ents"
    by (simp add: download_all_videos_thread_def)
  from e3 have f: "(\<exists>st. download_all_videos_thread env vs bar = Done st) \<longrightarrow> length ents = length vs"
    by (simp add: download_all_videos_thread_def)
  have "videos ?st0 = vs" by simp
  with e4 have g: "\<forall>e \<in> set ents. (snd (snd e) = None) = settled (vs ! fst e) \<and>
               (snd (snd e) = None) = (fst (snd e) = Completed \<or> fst (snd e) = Failed)"
    by (simp only:)
  from m le f g e5 show ?thesis unfolding v by blast
qed

text \<open>The loop does what the specification's walk over the items does.\<close>

lemma calls_of_append: "calls_of (xs @ ys) = calls_of xs @ calls_of ys"
  by (induction xs rule: calls_of.induct) simp_all

lemma download_loop_refines:
  "videos (state_of (download_loop env n is st)) = fst (downloads_in_order env is (videos st)) \<and>
   (\<exists>st1. download_loop env n is st = Done st1) = fst (snd (downloads_in_order env is (videos st))) \<and>
   calls_of (visits (state_of (download_loop env n is st)))
     = calls_of (visits st) @ snd (snd (downloads_in_order env is (videos st)))"
proof (induction "is" arbitrary: st)
  case Nil
  show ?case by simp
next
  case (Cons i rest)
  show ?case
  proof (cases rule: loop_body_cases [of st i env n])
    case skip
    let ?st1 = "st\<lparr>visits := visits st @ [(i, status (videos st ! i), None)]\<rparr>"
    from Cons.IH [of ?st1] skip show ?thesis
      by (simp add: calls_of_append)
  next
    case (hung vs1)
    then show ?thesis by (simp add: calls_of_append)
  next
    case (counted r vs1)
    let ?st1 = "st\<lparr>videos := vs1, visits := visits st @ [(i, status (videos st ! i), Some r)],
                  completed := completed st + 1,
                  overall_progress := (real (completed st + 1) / real n) * 100\<rparr>"
    from Cons.IH [of ?st1] counted show ?thesis
      by (simp add: calls_of_append split: prod.splits)
  next
    case (other r vs1)
    let ?st1 = "st\<lparr>videos := vs1, visits := visits st @ [(i, status (videos st ! i), Some r)]\<rparr>"
    from Cons.IH [of ?st1] other show ?thesis
      by (simp add: calls_of_append split: prod.splits)
  qed
qed

lemma downloads_in_order_calls: "fst ` set (snd (snd (downloads_in_order env is vs))) \<subseteq> set is"
proof (induction "is" arbitrary: vs)
  case Nil
  show ?case by simp
next
  case (Cons i rest)
  show ?case
  proof (cases "settled (vs ! i)")
    case True
    with Cons.IH [of vs] show ?thesis by auto
  next
    case False
    show ?thesis
    proof (cases "download_single_video i vs (env i)")
      case (Hung vs1)
      with False show ?thesis by simp
    next
      case (Finished r vs1)
      obtain ws b cs where q: "downloads_in_order env rest vs1 = (ws, b, cs)"
        by (cases "downloads_in_order env rest vs1") auto
      with Cons.IH [of vs1] have "fst ` set cs \<subseteq> set rest" by simp
      with False Finished q show ?thesis by auto
    qed
  qed
qed

lemma download_loop_append:
  "download_loop env n (is @ js) st =
     (case download_loop env n is st of
        Done st1 \<Rightarrow> download_loop env n js st1
      | Halted st1 \<Rightarrow> Halted st1)"
proof (induction "is" arbitrary: st)
  case Nil
  show ?case by simp
next
  case (Cons i rest)
  then show ?case by (cases "loop_body env n i st") simp_all
qed

lemma download_loop_cong:
  "\<forall>i \<in> set is. env' i = env i \<Longrightarrow> download_loop env' n is st = download_loop env n is st"
proof (induction "is" arbitrary: st)
  case Nil
  show ?case by simp
next
  case (Cons i rest)
  from Cons.prems have e: "env' i = env i" by simp
  have b: "loop_body env' n i st = loop_body env n i st"
    unfolding loop_body_def e by (rule refl)
  from Cons.prems have "\<forall>j \<in> set rest. env' j = env j" by simp
  from Cons.IH [OF this] b show ?case by (cases "loop_body env n i st") simp_all
qed

lemma upt_split: "k < n \<Longrightarrow> [0..<n] = [0..<k] @ k # [Suc k..<n]"
  using upt_add_eq_append [of 0 k "n - k"] by (simp add: upt_conv_Cons)

text \<open>
  When no item of the walk is completed or failed and every download returns, whatever
  the items are when it starts, and delivers the phase \<^verbatim>\<open>finished\<close>, the loop ends with
  all of them completed and counted.
\<close>

lemma download_loop_succeeds:
  "distinct is \<Longrightarrow>
   \<forall>i \<in> set is. i < length (videos st) \<and> \<not> settled (videos st ! i) \<and> delivers_finished (env i) \<and>
      (\<forall>ws. length ws = length (videos st) \<longrightarrow>
         (\<exists>ws'. download_single_video i ws (env i) = Finished Succeeded ws')) \<Longrightarrow>
   \<exists>st'. download_loop env n is st = Done st' \<and>
         length (videos st') = length (videos st) \<and>
         (\<forall>i \<in> set is. status (videos st' ! i) = Completed) \<and>
         completed st' = completed st + length is \<and>
         (is \<noteq> [] \<longrightarrow> overall_progress st' = (real (completed st') / real n) * 100)"
proof (induction "is" arbitrary: st)
  case Nil
  show ?case by simp
next
  case (Cons i rest)
  from Cons.prems(2) have li: "i < length (videos st)" and ns: "\<not> settled (videos st ! i)"
    and fi: "delivers_finished (env i)" by simp_all
  from Cons.prems(2) obtain vs1 where
    d: "download_single_video i (videos st) (env i) = Finished Succeeded vs1"
    by force
  from attempt_succeeded [OF d li fi] have c: "status (vs1 ! i) = Completed" .
  have l1: "length vs1 = length (videos st)"
    using length_attempt [of i "videos st" "env i"] d by simp
  let ?st1 = "st\<lparr>videos := vs1, visits := visits st @ [(i, status (videos st ! i), Some Succeeded)],
                completed := completed st + 1,
                overall_progress := (real (completed st + 1) / real n) * 100\<rparr>"
  from ns d c have b: "loop_body env n i st = Done ?st1"
    by (simp add: loop_body_def settled_def Let_def)
  from Cons.prems(1) have dr: "distinct rest" and ni: "i \<notin> set rest" by simp_all
  have hr: "\<forall>j \<in> set rest. j < length (videos ?st1) \<and> \<not> settled (videos ?st1 ! j) \<and>
      delivers_finished (env j) \<and>
      (\<forall>ws. length ws = length (videos ?st1) \<longrightarrow>
         (\<exists>ws'. download_single_video j ws (env j) = Finished Succeeded ws'))"
  proof
    fix j
    assume j: "j \<in> set rest"
    with ni have ne: "j \<noteq> i" by auto
    from j Cons.prems(2) have lj: "j < length (videos st)" and nj: "\<not> settled (videos st ! j)"
      by simp_all
    from stable_attempt [OF stable_unsettled ne lj nj, of "env i"] d
    have "\<not> settled (vs1 ! j)" by simp
    with j Cons.prems(2) l1 show "j < length (videos ?st1) \<and> \<not> settled (videos ?st1 ! j) \<and>
      delivers_finished (env j) \<and>
      (\<forall>ws. length ws = length (videos ?st1) \<longrightarrow>
         (\<exists>ws'. download_single_video j ws (env j) = Finished Succeeded ws'))"
      by simp
  qed
  from Cons.IH [OF dr hr] obtain st' where
    r: "download_loop env n rest ?st1 = Done st'"
    and l: "length (videos st') = length (videos ?st1)"
    and a: "\<forall>j \<in> set rest. status (videos st' ! j) = Completed"
    and k: "completed st' = completed ?st1 + length rest"
    and p: "rest \<noteq> [] \<longrightarrow> overall_progress st' = (real (completed st') / real n) * 100"
    by blast
  have c1: "status (videos ?st1 ! i) = Completed" using c by simp
  then have "settled (videos ?st1 ! i)" by (simp add: settled_def)
  then have s: "i \<notin> set rest \<or> settled (videos ?st1 ! i)" by simp
  have lk: "i < length (videos ?st1)" using li l1 by simp
  from stable_download_loop [OF stable_completed lk s c1, of env n] r
  have ci: "status (videos st' ! i) = Completed" by simp
  have pr: "overall_progress st' = (real (completed st') / real n) * 100"
  proof (cases "rest = []")
    case True
    with r have "st' = ?st1" by simp
    then have "overall_progress st' = overall_progress ?st1 \<and> completed st' = completed ?st1"
      by (simp only:)
    then show ?thesis by simp
  next
    case False
    with p show ?thesis by simp
  qed
  from b r l l1 a ci k pr show ?case by simp
qed

section \<open>The download-all loop\<close>

text \<open>
  Claim C5. The loop does what the walk of the specification does over the positions
  \<open>0, 1, ..., N - 1\<close> in this order: it leaves the items as the walk leaves them, it
  ends exactly when every download of the walk returns, and the calls of the download
  it logs are the calls of the walk, with the same outcomes. The walk calls the
  download of an item exactly when the item is neither completed nor failed as it is
  reached, and takes the next item only after the call has ended. In the log of the
  loop the positions stand in order from the first, without a gap or a repetition, all
  of them when the loop ends; an entry is without a call exactly when the status found
  was \<^verbatim>\<open>completed\<close> or \<^verbatim>\<open>failed\<close>, which is so exactly when it was so in the list
  given to the loop; a call that does not return can only be the last entry.
\<close>

theorem download_visits_in_order:
  "videos (state_of (download_all_videos_thread env vs bar))
     = fst (downloads_in_order env [0..<length vs] vs) \<and>
   (\<exists>st. download_all_videos_thread env vs bar = Done st)
     = fst (snd (downloads_in_order env [0..<length vs] vs)) \<and>
   calls_of (visits (state_of (download_all_videos_thread env vs bar)))
     = snd (snd (downloads_in_order env [0..<length vs] vs)) \<and>
   map fst (visits (state_of (download_all_videos_thread env vs bar)))
     = [0..<length (visits (state_of (download_all_videos_thread env vs bar)))] \<and>
   length (visits (state_of (download_all_videos_thread env vs bar))) \<le> length vs \<and>
   ((\<exists>st. download_all_videos_thread env vs bar = Done st) \<longrightarrow>
      length (visits (state_of (download_all_videos_thread env vs bar))) = length vs) \<and>
   (\<forall>e \<in> set (visits (state_of (download_all_videos_thread env vs bar))).
      (snd (snd e) = None) = (fst (snd e) = Completed \<or> fst (snd e) = Failed) \<and>
      (snd (snd e) = None) = settled (vs ! fst e)) \<and>
   (\<forall>e \<in> set (butlast (visits (state_of (download_all_videos_thread env vs bar)))).
      snd (snd e) \<noteq> Some NoReturn)"
proof -
  let ?st0 = "\<lparr>videos = vs, overall_progress = bar, completed = 0, visits = []\<rparr>"
  from download_loop_refines [of env "length vs" "[0..<length vs]" ?st0]
  have "videos (state_of (download_all_videos_thread env vs bar))
       = fst (downloads_in_order env [0..<length vs] vs) \<and>
     (\<exists>st. download_all_videos_thread env vs bar = Done st)
       = fst (snd (downloads_in_order env [0..<length vs] vs)) \<and>
     calls_of (visits (state_of (download_all_videos_thread env vs bar)))
       = snd (snd (downloads_in_order env [0..<length vs] vs))"
    by (simp add: download_all_videos_thread_def)
  with thread_visits [of env vs bar] show ?thesis by blast
qed

theorem download_visits_in_order_witness:
  "videos (state_of (download_all_videos_thread example_env example_videos 0))
     = [example_item\<lparr>progress := 100, status := Completed, filesize := PInt 1024,
          downloaded_bytes := PInt 512, output_filename := PStr ''First.mp4''\<rparr>,
        example_item\<lparr>status := Completed\<rparr>,
        example_item\<lparr>progress := 100, status := Completed, filesize := PInt 1024,
          downloaded_bytes := PInt 512, output_filename := PStr ''First.mp4''\<rparr>] \<and>
   calls_of (visits (state_of (download_all_videos_thread example_env example_videos 0)))
     = [(0, Succeeded), (2, Succeeded)] \<and>
   map fst (visits (state_of (download_all_videos_thread example_env example_videos 0)))
     = [0..<length (visits (state_of (download_all_videos_thread example_env example_videos 0)))]"
proof -
  have w: "downloads_in_order example_env [0..<length example_videos] example_videos
     = ([example_item\<lparr>progress := 100, status := Completed, filesize := PInt 1024,
          downloaded_bytes := PInt 512, output_filename := PStr ''First.mp4''\<rparr>,
        example_item\<lparr>status := Completed\<rparr>,
        example_item\<lparr>progress := 100, status := Completed, filesize := PInt 1024,
          downloaded_bytes := PInt 512, output_filename := PStr ''First.mp4''\<rparr>],
        True, [(0, Succeeded), (2, Succeeded)])"
    by (simp add: settled_def download_single_video_def
        video_progress_hook_def update_progress_def example_env_def example_videos_def
        example_progress_def example_finished_def example_item_def VideoItem_def
        dict_get_def py_or_def py_percent_def upt_rec)
  from download_visits_in_order [of example_env example_videos 0] w show ?thesis by simp
qed

text \<open>
  Claim C4, as the code has it. The loop has passed the items before \<open>k\<close> and is at
  \<open>st1\<close>; item \<open>k\<close> is not completed or failed, and its download raises the error \<open>e\<close>.
  Then item \<open>k\<close> is failed and its stored message is \<^verbatim>\<open>str(e)\<close>, not empty when the text
  of the error is not. The loop does not stop: it goes on with the positions after \<open>k\<close>
  from that state, and leaves the items as the walk of the specification over these
  positions leaves them, so each of them that is not completed or failed gets its
  download. Its calls are those made before \<open>k\<close>, the one for \<open>k\<close>, and those of the walk
  after \<open>k\<close>, none of which is for \<open>k\<close> again. At the end item \<open>k\<close> is still failed with the
  same message. The items before \<open>k\<close> are handled by their own downloads alone: the
  loop reaches the same state with any other downloads for \<open>k\<close> and the items after it.
\<close>

theorem failed_item_does_not_stop_loop:
  assumes "k < length vs"
    and "download_loop env (length vs) [0..<k]
           \<lparr>videos = vs, overall_progress = bar, completed = 0, visits = []\<rparr> = Done st1"
    and "\<not> settled (vs ! k)"
    and "download_single_video k (videos st1) (env k) = Finished (Errored e) vs2"
  shows "status (vs2 ! k) = Failed \<and> error_message (vs2 ! k) = str_exn e \<and>
         (str_exn e \<noteq> [] \<longrightarrow> error_message (vs2 ! k) \<noteq> []) \<and>
         download_all_videos_thread env vs bar =
           download_loop env (length vs) [Suc k..<length vs]
             (st1\<lparr>videos := vs2,
                  visits := visits st1 @ [(k, status (videos st1 ! k), Some (Errored e))]\<rparr>) \<and>
         videos (state_of (download_all_videos_thread env vs bar))
           = fst (downloads_in_order env [Suc k..<length vs] vs2) \<and>
         calls_of (visits (state_of (download_all_videos_thread env vs bar)))
           = calls_of (visits st1) @ (k, Errored e) #
               snd (snd (downloads_in_order env [Suc k..<length vs] vs2)) \<and>
         k \<notin> fst ` set (snd (snd (downloads_in_order env [Suc k..<length vs] vs2))) \<and>
         status (videos (state_of (download_all_videos_thread env vs bar)) ! k) = Failed \<and>
         error_message (videos (state_of (download_all_videos_thread env vs bar)) ! k) = str_exn e \<and>
         (\<forall>env'. (\<forall>i < k. env' i = env i) \<longrightarrow>
            download_loop env' (length vs) [0..<k]
              \<lparr>videos = vs, overall_progress = bar, completed = 0, visits = []\<rparr> = Done st1)"
proof -
  let ?st0 = "\<lparr>videos = vs, overall_progress = bar, completed = 0, visits = []\<rparr>"
  let ?st2 = "st1\<lparr>videos := vs2,
                  visits := visits st1 @ [(k, status (videos st1 ! k), Some (Errored e))]\<rparr>"
  let ?n = "length vs"
  have l1: "length (videos st1) = length vs"
    using length_download_loop [of env ?n "[0..<k]" ?st0] assms(2) by simp
  have k0: "k < length (videos ?st0)" using assms(1) by simp
  have "k \<notin> set [0..<k] \<or> settled (videos ?st0 ! k)" by simp
  from stable_download_loop [OF stable_unsettled k0 this, of env ?n] assms(2,3)
  have ns: "\<not> settled (videos st1 ! k)" by simp
  from assms(1) l1 have lk: "k < length (videos st1)" by simp
  from attempt_errored [OF assms(4) lk]
  have f: "status (vs2 ! k) = Failed \<and> error_message (vs2 ! k) = str_exn e" .
  then have nc: "status (vs2 ! k) \<noteq> Completed" by simp
  from ns assms(4) nc have b: "loop_body env ?n k st1 = Done ?st2"
    by (simp add: loop_body_def settled_def Let_def)
  have "download_all_videos_thread env vs bar = download_loop env ?n ([0..<k] @ k # [Suc k..<?n]) ?st0"
    using upt_split [OF assms(1)] by (simp add: download_all_videos_thread_def)
  also have "\<dots> = download_loop env ?n (k # [Suc k..<?n]) st1"
    using assms(2) by (simp add: download_loop_append)
  also have "\<dots> = download_loop env ?n [Suc k..<?n] ?st2"
    using b by simp
  finally have t: "download_all_videos_thread env vs bar = download_loop env ?n [Suc k..<?n] ?st2" .
  from download_loop_refines [of env ?n "[Suc k..<?n]" ?st2]
  have r1: "videos (state_of (download_all_videos_thread env vs bar))
      = fst (downloads_in_order env [Suc k..<?n] vs2)"
    and r2: "calls_of (visits (state_of (download_all_videos_thread env vs bar)))
      = calls_of (visits st1) @ (k, Errored e) # snd (snd (downloads_in_order env [Suc k..<?n] vs2))"
    by (simp_all add: t calls_of_append)
  have nk: "k \<notin> fst ` set (snd (snd (downloads_in_order env [Suc k..<?n] vs2)))"
    using downloads_in_order_calls [of env "[Suc k..<?n]" vs2] by auto
  have l2: "length vs2 = length vs"
    using length_attempt [of k "videos st1" "env k"] assms(4) l1 by simp
  have k2: "k < length (videos ?st2)" using assms(1) l2 by simp
  have s2: "k \<notin> set [Suc k..<?n] \<or> settled (videos ?st2 ! k)" by simp
  have f2: "status (videos ?st2 ! k) = Failed \<and> error_message (videos ?st2 ! k) = str_exn e"
    using f by simp
  from stable_download_loop [OF stable_failed k2 s2 f2, of env ?n]
  have e: "status (videos (state_of (download_all_videos_thread env vs bar)) ! k) = Failed \<and>
      error_message (videos (state_of (download_all_videos_thread env vs bar)) ! k) = str_exn e"
    by (simp only: t)
  have c: "\<forall>env'. (\<forall>i < k. env' i = env i) \<longrightarrow> download_loop env' ?n [0..<k] ?st0 = Done st1"
  proof (intro allI impI)
    fix env'
    assume "\<forall>i < k. env' i = env i"
    then have "\<forall>i \<in> set [0..<k]. env' i = env i" by simp
    from download_loop_cong [OF this, of ?n ?st0] assms(2)
    show "download_loop env' ?n [0..<k] ?st0 = Done st1" by simp
  qed
  from f t r1 r2 nk e c show ?thesis by simp
qed

theorem failed_item_does_not_stop_loop_witness:
  "error_message (videos (state_of (download_all_videos_thread example_failing_env
       [example_item, example_item, example_item] 0)) ! 1) = ''HTTP Error 403'' \<and>
   map status (videos (state_of (download_all_videos_thread example_failing_env
       [example_item, example_item, example_item] 0))) = [Completed, Failed, Completed] \<and>
   calls_of (visits (state_of (download_all_videos_thread example_failing_env
       [example_item, example_item, example_item] 0)))
     = [(0, Succeeded), (1, Errored (Exception ''HTTP Error 403'')), (2, Succeeded)]"
proof -
  let ?vs = "[example_item, example_item, example_item]"
  let ?st0 = "\<lparr>videos = ?vs, overall_progress = 0, completed = 0, visits = []\<rparr>"
  let ?r1 = "download_loop example_failing_env (length ?vs) [0..<1] ?st0"
  let ?a = "download_single_video 1 (videos (state_of ?r1)) (example_failing_env 1)"
  let ?t = "download_all_videos_thread example_failing_env ?vs 0"
  have k: "1 < length ?vs" by simp
  have "case ?r1 of Done x \<Rightarrow> True | Halted x \<Rightarrow> False"
    by (simp add: loop_body_def download_single_video_def
        video_progress_hook_def update_progress_def example_failing_env_def
        example_progress_def example_finished_def example_item_def VideoItem_def
        dict_get_def py_or_def py_percent_def upt_rec)
  then have d: "?r1 = Done (state_of ?r1)" by (cases ?r1) simp_all
  have n: "\<not> settled (?vs ! 1)"
    by (simp add: settled_def example_item_def VideoItem_def)
  have "case ?a of Finished r ws \<Rightarrow> r = Errored (Exception ''HTTP Error 403'') | Hung ws \<Rightarrow> False"
    by (simp add: loop_body_def download_single_video_def
        video_progress_hook_def update_progress_def example_failing_env_def
        example_progress_def example_finished_def example_item_def VideoItem_def
        dict_get_def py_or_def py_percent_def upt_rec)
  then have a: "?a = Finished (Errored (Exception ''HTTP Error 403'')) (attempt_state ?a)"
    by (cases ?a) simp_all
  from failed_item_does_not_stop_loop [OF k d n a]
  have "error_message (videos (state_of ?t) ! 1) = str_exn (Exception ''HTTP Error 403'')"
    by blast
  then have m: "error_message (videos (state_of ?t) ! 1) = ''HTTP Error 403''" by simp
  have s: "map status (videos (state_of ?t)) = [Completed, Failed, Completed]"
    by (simp add: download_all_videos_thread_def loop_body_def download_single_video_def
        video_progress_hook_def update_progress_def example_failing_env_def
        example_progress_def example_finished_def example_item_def VideoItem_def
        dict_get_def py_or_def py_percent_def upt_rec)
  have c: "calls_of (visits (state_of ?t))
     = [(0, Succeeded), (1, Errored (Exception ''HTTP Error 403'')), (2, Succeeded)]"
    by (simp add: download_all_videos_thread_def loop_body_def download_single_video_def
        video_progress_hook_def update_progress_def example_failing_env_def
        example_progress_def example_finished_def example_item_def VideoItem_def
        dict_get_def py_or_def py_percent_def upt_rec)
  from m s c show ?thesis by simp
qed

text \<open>
  The claim as stated fails when the error raised has no text: the item is failed, and
  the message stored for it is empty.
\<close>

theorem failed_item_with_empty_message:
  "calls_of (visits (state_of (download_all_videos_thread (\<lambda>i. [Raise (Exception [])])
       [example_item] 0))) = [(0, Errored (Exception []))] \<and>
   status (videos (state_of (download_all_videos_thread (\<lambda>i. [Raise (Exception [])])
       [example_item] 0)) ! 0) = Failed \<and>
   error_message (videos (state_of (download_all_videos_thread (\<lambda>i. [Raise (Exception [])])
       [example_item] 0)) ! 0) = []"
  by (simp add: download_all_videos_thread_def loop_body_def download_single_video_def
      example_item_def VideoItem_def)

lemma example_env_succeeds:
  "i < length ws \<Longrightarrow> \<exists>ws'. download_single_video i ws (example_env i) = Finished Succeeded ws'"
  by (simp add: download_single_video_def video_progress_hook_def update_progress_def
      example_env_def example_progress_def example_finished_def dict_get_def py_or_def
      py_percent_def Let_def)

text \<open>
  Claim C3, as the code has it. The list is not empty and none of its items is
  completed or failed; the download of every item returns without raising, whatever
  the items are when it starts, and calls the callback in the phase \<^verbatim>\<open>finished\<close>. Then
  \<^verbatim>\<open>download_all_videos\<close> starts the loop, the loop ends, all items are completed, the
  counter of completed items is their number, and the value of the progress bar is the
  counter divided by the number of items, as a percentage: 100.
\<close>

theorem all_downloads_succeed:
  assumes "vs \<noteq> []"
    and "\<forall>i < length vs. \<not> settled (vs ! i)"
    and "\<forall>i < length vs. delivers_finished (env i) \<and>
           (\<forall>ws. length ws = length vs \<longrightarrow>
              (\<exists>ws'. download_single_video i ws (env i) = Finished Succeeded ws'))"
  shows "download_all_videos env vs bar
           = Some (Done (state_of (download_all_videos_thread env vs bar))) \<and>
         length (videos (state_of (download_all_videos_thread env vs bar))) = length vs \<and>
         (\<forall>i < length vs. status (videos (state_of (download_all_videos_thread env vs bar)) ! i)
            = Completed) \<and>
         completed (state_of (download_all_videos_thread env vs bar)) = length vs \<and>
         overall_progress (state_of (download_all_videos_thread env vs bar))
           = (real (completed (state_of (download_all_videos_thread env vs bar)))
                / real (length vs)) * 100 \<and>
         overall_progress (state_of (download_all_videos_thread env vs bar)) = 100"
proof -
  let ?st0 = "\<lparr>videos = vs, overall_progress = bar, completed = 0, visits = []\<rparr>"
  have d: "distinct [0..<length vs]" by simp
  from assms(2,3) have h: "\<forall>i \<in> set [0..<length vs]. i < length (videos ?st0) \<and>
      \<not> settled (videos ?st0 ! i) \<and> delivers_finished (env i) \<and>
      (\<forall>ws. length ws = length (videos ?st0) \<longrightarrow>
         (\<exists>ws'. download_single_video i ws (env i) = Finished Succeeded ws'))"
    by simp
  from download_loop_succeeds [OF d h, of "length vs"] obtain st where
    r: "download_loop env (length vs) [0..<length vs] ?st0 = Done st"
    and l: "length (videos st) = length (videos ?st0)"
    and a: "\<forall>i \<in> set [0..<length vs]. status (videos st ! i) = Completed"
    and c: "completed st = completed ?st0 + length [0..<length vs]"
    and p: "[0..<length vs] \<noteq> [] \<longrightarrow>
              overall_progress st = (real (completed st) / real (length vs)) * 100"
    by blast
  from r have t: "download_all_videos_thread env vs bar = Done st"
    by (simp add: download_all_videos_thread_def)
  from assms(1) c p have "overall_progress st = 100" by simp
  with t l a c p assms(1) show ?thesis
    by (simp add: download_all_videos_def)
qed

theorem all_downloads_succeed_witness:
  "download_all_videos example_env [example_item, example_item] 0
     = Some (Done (state_of (download_all_videos_thread example_env [example_item, example_item] 0))) \<and>
   overall_progress (state_of (download_all_videos_thread example_env [example_item, example_item] 0))
     = 100 \<and>
   map status (videos (state_of (download_all_videos_thread example_env
       [example_item, example_item] 0))) = [Completed, Completed]"
proof -
  let ?vs = "[example_item, example_item]"
  have n: "?vs \<noteq> []" by simp
  have u: "\<forall>i < length ?vs. \<not> settled (?vs ! i)"
    by (simp add: less_Suc_eq settled_def example_item_def VideoItem_def)
  have f: "\<forall>i < length ?vs. delivers_finished (example_env i) \<and>
           (\<forall>ws. length ws = length ?vs \<longrightarrow>
              (\<exists>ws'. download_single_video i ws (example_env i) = Finished Succeeded ws'))"
  proof (intro allI impI conjI)
    fix i
    show "delivers_finished (example_env i)"
      by (simp add: delivers_finished_def example_env_def example_finished_def)
  next
    fix i and ws :: videos
    assume "i < length ?vs" and "length ws = length ?vs"
    then have "i < length ws" by simp
    then show "\<exists>ws'. download_single_video i ws (example_env i) = Finished Succeeded ws'"
      by (rule example_env_succeeds)
  qed
  note t = all_downloads_succeed [OF n u f, of 0]
  from t have a: "download_all_videos example_env ?vs 0
     = Some (Done (state_of (download_all_videos_thread example_env ?vs 0)))"
    by blast
  from t have b: "overall_progress (state_of (download_all_videos_thread example_env ?vs 0)) = 100"
    by blast
  from t have "\<forall>i < length ?vs.
      status (videos (state_of (download_all_videos_thread example_env ?vs 0)) ! i) = Completed"
    by blast
  moreover from t have "length (videos (state_of (download_all_videos_thread example_env ?vs 0)))
      = length ?vs"
    by blast
  ultimately have c: "map status (videos (state_of (download_all_videos_thread example_env ?vs 0)))
      = [Completed, Completed]"
    by (auto simp: list_eq_iff_nth_eq less_Suc_eq)
  from a b c show ?thesis by simp
qed

text \<open>
  The claim as stated fails on a list whose first item is already completed: the loop
  passes over it and does not count it. The one download made succeeds, the loop ends,
  and the progress bar stands at 50.
\<close>

theorem completed_before_not_counted:
  "download_all_videos example_env example_half_done 0
     = Some (Done (state_of (download_all_videos_thread example_env example_half_done 0))) \<and>
   calls_of (visits (state_of (download_all_videos_thread example_env example_half_done 0)))
     = [(1, Succeeded)] \<and>
   map status (videos (state_of (download_all_videos_thread example_env example_half_done 0)))
     = [Completed, Completed] \<and>
   overall_progress (state_of (download_all_videos_thread example_env example_half_done 0)) = 50"
  by (simp add: download_all_videos_def download_all_videos_thread_def loop_body_def
      download_single_video_def video_progress_hook_def update_progress_def example_env_def
      example_half_done_def example_progress_def example_finished_def example_item_def
      VideoItem_def dict_get_def py_or_def py_percent_def upt_rec)

end
